theory Spec2Isabelle
  imports Main
begin

section \<open>The cpu_capacity_mod kernel module (cpu_capacity_mod.c)\<close>

text \<open>
  The module keeps four pieces of global state: the per-CPU variable \<open>cpu_scale\<close> (owned by
  the kernel, written by the module), the heap array \<open>original_capacities\<close>, the flag
  \<open>original_saved\<close> and the character buffer \<open>capacities_buf\<close>. Every function of the
  module is modelled as a function from the state before the call to the return value
  and the state after it. All of them run under \<open>capacities_mutex\<close> or from the
  module's exit hook, so a call is one atomic step of the model.

  Numbers: \<open>unsigned int\<close> and \<open>unsigned long\<close> values are natural numbers; the places
  where the width matters (the range checks of the integer parsers) are written out.
  The return value of a function is the C \<open>int\<close>: 0 or a negated errno.
\<close>

subsection \<open>Errno values and constants of the kernel headers\<close>

definition EINVAL :: int where "EINVAL = 22"
definition ERANGE :: int where "ERANGE = 34"
definition ENOMEM :: int where "ENOMEM = 12"

definition SCHED_CAPACITY_SCALE :: nat where "SCHED_CAPACITY_SCALE = 1024"
definition MAX_CAPACITIES_LEN :: nat where "MAX_CAPACITIES_LEN = 256"

text \<open>\<open>PAGE_SIZE\<close> depends on the architecture; 4096 is its smallest value.\<close>
definition PAGE_SIZE :: nat where "PAGE_SIZE = 4096"

subsection \<open>Environment and state\<close>

text \<open>
  \<open>nr_cpu_ids\<close> and the possible-CPU mask are fixed at boot. \<open>possible_cpus\<close> is the
  order in which \<open>for_each_possible_cpu\<close> visits the CPUs: the set bits of the mask
  below \<open>nr_cpu_ids\<close>, ascending.
\<close>

record env =
  nr_cpu_ids :: nat
  cpu_possible :: "nat \<Rightarrow> bool"

definition possible_cpus :: "env \<Rightarrow> nat list" where
  "possible_cpus e = filter (cpu_possible e) [0 ..< nr_cpu_ids e]"

text \<open>
  \<open>original_capacities\<close> is \<open>None\<close> for the NULL pointer and \<open>Some a\<close> for an allocated
  array with contents \<open>a\<close>. \<open>capacities_buf\<close> holds the characters before the
  terminating NUL.
\<close>

record cap_state =
  cpu_scale :: "nat \<Rightarrow> nat"
  original_capacities :: "(nat \<Rightarrow> nat) option"
  original_saved :: bool
  capacities_buf :: string

text \<open>
  The outcome of \<open>kmalloc_array\<close> is an input of the model: \<open>None\<close> when the allocation
  fails, \<open>Some g\<close> when it returns a fresh array whose (uninitialised) contents are \<open>g\<close>.
\<close>

type_synonym alloc = "(nat \<Rightarrow> nat) option"

subsection \<open>save_original_capacities, restore_original_capacities\<close>

definition save_original_capacities :: "env \<Rightarrow> alloc \<Rightarrow> cap_state \<Rightarrow> int \<times> cap_state" where
  "save_original_capacities e al st =
     (if original_saved st then (0, st)
      else case al of
        None \<Rightarrow> (- ENOMEM, st\<lparr>original_capacities := None\<rparr>)
      | Some g \<Rightarrow>
          (0, st\<lparr>original_capacities :=
                    Some (fold (\<lambda>cpu a. a(cpu := cpu_scale st cpu)) (possible_cpus e) g),
                  original_saved := True\<rparr>))"

definition restore_original_capacities :: "env \<Rightarrow> cap_state \<Rightarrow> cap_state" where
  "restore_original_capacities e st =
     (if \<not> original_saved st then st
      else case original_capacities st of
        None \<Rightarrow> st
      | Some a \<Rightarrow>
          st\<lparr>cpu_scale := fold (\<lambda>cpu sc. sc(cpu := a cpu)) (possible_cpus e) (cpu_scale st),
             original_capacities := None,
             original_saved := False\<rparr>)"

text \<open>The exit hook of the module only calls the restore function.\<close>

definition cpu_capacity_mod_exit :: "env \<Rightarrow> cap_state \<Rightarrow> cap_state" where
  "cpu_capacity_mod_exit e st = restore_original_capacities e st"

subsection \<open>set_cpu_capacity and the loop over a range\<close>

definition set_cpu_capacity :: "env \<Rightarrow> nat \<Rightarrow> nat \<Rightarrow> cap_state \<Rightarrow> int \<times> cap_state" where
  "set_cpu_capacity e cpu capacity st =
     (if cpu \<ge> nr_cpu_ids e \<or> \<not> cpu_possible e cpu then (- EINVAL, st)
      else if capacity > SCHED_CAPACITY_SCALE then (- EINVAL, st)
      else (0, st\<lparr>cpu_scale := (cpu_scale st)(cpu := capacity)\<rparr>))"

text \<open>
  The \<open>for\<close> loop at the end of \<open>parse_capacity_spec\<close>. The increment cannot wrap
  around: it is reached only after \<open>set_cpu_capacity\<close> accepted \<open>cpu\<close>, which is then
  below \<open>nr_cpu_ids\<close>, itself an \<open>unsigned int\<close>.
\<close>

function apply_range :: "env \<Rightarrow> nat \<Rightarrow> nat \<Rightarrow> nat \<Rightarrow> cap_state \<Rightarrow> int \<times> cap_state" where
  "apply_range e capacity cpu cpu_end st =
     (if cpu \<le> cpu_end then
        (case set_cpu_capacity e cpu capacity st of
           (ret, st') \<Rightarrow>
             if ret \<noteq> 0 then (ret, st')
             else apply_range e capacity (cpu + 1) cpu_end st')
      else (0, st))"
  by pat_completeness auto
termination
  by (relation "measure (\<lambda>(e, capacity, cpu, cpu_end, st). cpu_end + 1 - cpu)") auto

subsection \<open>The kernel's integer parsers (lib/kstrtox.c) and isspace (lib/ctype.c)\<close>

text \<open>
  These routines belong to the kernel, not to the module. They are modelled after the
  kernel's implementation, for a 64-bit \<open>unsigned long\<close>: an optional \<open>+\<close>, the radix
  chosen from the prefix (\<open>0x\<close> followed by a hex digit: 16; a leading \<open>0\<close>: 8; otherwise
  10), at least one digit, an optional single newline, and nothing after it.
  A value that does not fit gives \<open>-ERANGE\<close>, any other defect \<open>-EINVAL\<close>.
\<close>

definition isspace :: "char \<Rightarrow> bool" where
  "isspace c = (let n = (of_char c :: nat) in (9 \<le> n \<and> n \<le> 13) \<or> n = 32 \<or> n = 160)"

definition digit_val :: "char \<Rightarrow> nat option" where
  "digit_val c =
     (let n = (of_char c :: nat) in
      if 48 \<le> n \<and> n \<le> 57 then Some (n - 48)
      else if 97 \<le> n \<and> n \<le> 102 then Some (n - 87)
      else if 65 \<le> n \<and> n \<le> 70 then Some (n - 55)
      else None)"

text \<open>
  \<open>_parse_integer\<close>: the value read (wrapping at 64 bits), the number of characters
  consumed, and the overflow flag.
\<close>

fun parse_integer :: "nat \<Rightarrow> string \<Rightarrow> nat \<Rightarrow> nat \<times> nat \<times> bool" where
  "parse_integer base [] res = (res, 0, False)"
| "parse_integer base (c # cs) res =
     (case digit_val c of
        None \<Rightarrow> (res, 0, False)
      | Some v \<Rightarrow>
          if v \<ge> base then (res, 0, False)
          else
            (case parse_integer base cs ((res * base + v) mod 2 ^ 64) of
               (r, n, ov) \<Rightarrow>
                 (r, n + 1,
                  ov \<or> (res \<ge> 2 ^ 60 \<and> res > (2 ^ 64 - 1 - v) div base))))"

text \<open>\<open>_parse_integer_fixup_radix\<close> called with base 0: the radix and the rest of the text.\<close>

definition fixup_radix :: "string \<Rightarrow> nat \<times> string" where
  "fixup_radix s =
     (case s of
        c0 # c1 # c2 # rest \<Rightarrow>
          if c0 = CHR ''0'' then
            (if (c1 = CHR ''x'' \<or> c1 = CHR ''X'') \<and> digit_val c2 \<noteq> None
             then (16, c2 # rest) else (8, s))
          else (10, s)
      | _ \<Rightarrow> (if s \<noteq> [] \<and> hd s = CHR ''0'' then (8, s) else (10, s)))"

definition kstrtoull :: "string \<Rightarrow> int + nat" where
  "kstrtoull s0 =
     (let s1 = (if s0 \<noteq> [] \<and> hd s0 = CHR ''+'' then tl s0 else s0);
          (base, s) = fixup_radix s1
      in case parse_integer base s 0 of
           (res, rv, ov) \<Rightarrow>
             if ov then Inl (- ERANGE)
             else if rv = 0 then Inl (- EINVAL)
             else
               (let t = drop rv s;
                    t' = (if t \<noteq> [] \<and> hd t = CHR 0x0A then tl t else t)
                in if t' \<noteq> [] then Inl (- EINVAL) else Inr res))"

definition kstrtoul :: "string \<Rightarrow> int + nat" where
  "kstrtoul s = kstrtoull s"

definition kstrtouint :: "string \<Rightarrow> int + nat" where
  "kstrtouint s =
     (case kstrtoull s of
        Inl err \<Rightarrow> Inl err
      | Inr tmp \<Rightarrow> if tmp \<ge> 2 ^ 32 then Inl (- ERANGE) else Inr tmp)"

subsection \<open>parse_capacity_spec\<close>

text \<open>
  The first half of \<open>parse_capacity_spec\<close>, up to the check of the range: it reads
  \<open>cpu_start\<close>, \<open>cpu_end\<close> and \<open>capacity\<close> from the text and touches no global state.
  \<open>strchr\<close> finds the first occurrence of the separator; overwriting it with NUL cuts
  the buffer there.
\<close>

definition before :: "char \<Rightarrow> string \<Rightarrow> string" where
  "before sep s = takeWhile (\<lambda>c. c \<noteq> sep) s"

definition after :: "char \<Rightarrow> string \<Rightarrow> string" where
  "after sep s = tl (dropWhile (\<lambda>c. c \<noteq> sep) s)"

definition spec_fields :: "string \<Rightarrow> int + (nat \<times> nat \<times> nat)" where
  "spec_fields spec =
     (if length spec \<ge> 64 then Inl (- EINVAL)
      else if CHR '':'' \<notin> set spec then Inl (- EINVAL)
      else
        (let buf = before CHR '':'' spec in
         case kstrtoul (after CHR '':'' spec) of
           Inl ret \<Rightarrow> Inl ret
         | Inr capacity \<Rightarrow>
             (case (if CHR ''-'' \<in> set buf then
                      (case kstrtouint (before CHR ''-'' buf) of
                         Inl ret \<Rightarrow> Inl ret
                       | Inr cpu_start \<Rightarrow>
                           (case kstrtouint (after CHR ''-'' buf) of
                              Inl ret \<Rightarrow> Inl ret
                            | Inr cpu_end \<Rightarrow> Inr (cpu_start, cpu_end)))
                    else
                      (case kstrtouint buf of
                         Inl ret \<Rightarrow> Inl ret
                       | Inr cpu_start \<Rightarrow> Inr (cpu_start, cpu_start)))
              of
                Inl ret \<Rightarrow> Inl ret
              | Inr (cpu_start, cpu_end) \<Rightarrow>
                  if cpu_start > cpu_end then Inl (- EINVAL)
                  else Inr (cpu_start, cpu_end, capacity))))"

definition parse_capacity_spec :: "env \<Rightarrow> string \<Rightarrow> cap_state \<Rightarrow> int \<times> cap_state" where
  "parse_capacity_spec e spec st =
     (case spec_fields spec of
        Inl ret \<Rightarrow> (ret, st)
      | Inr (cpu_start, cpu_end, capacity) \<Rightarrow> apply_range e capacity cpu_start cpu_end st)"

subsection \<open>parse_capacities\<close>

definition skip_space :: "string \<Rightarrow> string" where
  "skip_space p = dropWhile isspace p"

text \<open>
  One round of the \<open>while (*p)\<close> loop splits the rest of the input at \<open>end\<close>: \<open>spec_of p\<close>
  is the text from \<open>p\<close> to \<open>end\<close> (up to the first comma, trailing whitespace removed),
  and \<open>next_of p\<close> is where \<open>p\<close> points before the next round.
\<close>

definition trim_right :: "string \<Rightarrow> string" where
  "trim_right s = rev (dropWhile isspace (rev s))"

definition spec_of :: "string \<Rightarrow> string" where
  "spec_of p = trim_right (before CHR '','' p)"

definition next_of :: "string \<Rightarrow> string" where
  "next_of p =
     (let rest = drop (length (spec_of p)) p
      in skip_space (if rest \<noteq> [] \<and> hd rest = CHR '','' then tl rest else rest))"

lemma length_trim_right: "length (trim_right s) \<le> length s"
  unfolding trim_right_def using length_dropWhile_le [of isspace "rev s"] by simp

lemma trim_right_Nil_iff: "trim_right s = [] \<longleftrightarrow> (\<forall>c \<in> set s. isspace c)"
  unfolding trim_right_def by simp

lemma length_spec_of: "length (spec_of p) \<le> length p"
proof -
  have "length (spec_of p) \<le> length (before CHR '','' p)"
    unfolding spec_of_def by (rule length_trim_right)
  also have "\<dots> \<le> length p"
    unfolding before_def by (rule length_takeWhile_le)
  finally show ?thesis .
qed

lemma length_skip_space: "length (skip_space s) \<le> length s"
  unfolding skip_space_def by (rule length_dropWhile_le)

lemma length_next_of: "p \<noteq> [] \<Longrightarrow> length (next_of p) < length p"
proof -
  assume ne: "p \<noteq> []"
  then obtain c cs where p: "p = c # cs" by (cases p) auto
  show ?thesis
  proof (cases "spec_of p = []")
    case False
    then have "length (drop (length (spec_of p)) p) < length p"
      using ne by simp
    moreover have "length (skip_space (if r \<noteq> [] \<and> hd r = CHR '','' then tl r else r)) \<le> length r"
      for r :: string
      using length_skip_space [of r] length_skip_space [of "tl r"] by (cases r) auto
    then have "length (next_of p) \<le> length (drop (length (spec_of p)) p)"
      unfolding next_of_def Let_def .
    ultimately show ?thesis by linarith
  next
    case True
    show ?thesis
    proof (cases "c = CHR '',''")
      case True
      with \<open>spec_of p = []\<close> p have "next_of p = skip_space cs"
        by (simp add: next_of_def)
      then show ?thesis using length_skip_space [of cs] p by simp
    next
      case False
      with p have "c \<in> set (before CHR '','' p)" by (simp add: before_def)
      with \<open>spec_of p = []\<close> have "isspace c"
        by (simp add: spec_of_def trim_right_Nil_iff)
      with \<open>spec_of p = []\<close> p False have "next_of p = skip_space cs"
        by (simp add: next_of_def skip_space_def)
      then show ?thesis using length_skip_space [of cs] p by simp
    qed
  qed
qed

text \<open>The \<open>while (*p)\<close> loop of \<open>parse_capacities\<close>.\<close>

function parse_loop :: "env \<Rightarrow> string \<Rightarrow> cap_state \<Rightarrow> int \<times> cap_state" where
  "parse_loop e p st =
     (if p = [] then (0, st)
      else if spec_of p \<noteq> [] then
        (case parse_capacity_spec e (spec_of p) st of
           (ret, st') \<Rightarrow> if ret \<noteq> 0 then (ret, st') else parse_loop e (next_of p) st')
      else parse_loop e (next_of p) st)"
  by pat_completeness auto
termination
  by (relation "measure (\<lambda>(e, p, st). length p)") (auto simp: length_next_of)

definition parse_capacities :: "env \<Rightarrow> alloc \<Rightarrow> string \<Rightarrow> cap_state \<Rightarrow> int \<times> cap_state" where
  "parse_capacities e al str st =
     (let p = skip_space str in
      if p = [] then (0, st)
      else
        (case save_original_capacities e al st of
           (ret, st1) \<Rightarrow> if ret \<noteq> 0 then (ret, st1) else parse_loop e p st1))"

subsection \<open>capacities_set, capacities_get\<close>

text \<open>
  The parameter callbacks. \<open>val\<close> is \<open>None\<close> for a NULL pointer and otherwise the
  characters of the C string. \<open>capacities_get\<close> returns the text that \<open>scnprintf\<close> wrote
  into the caller's buffer (its return value is the length of that text).
\<close>

definition capacities_set :: "env \<Rightarrow> alloc \<Rightarrow> string option \<Rightarrow> cap_state \<Rightarrow> int \<times> cap_state" where
  "capacities_set e al val st =
     (case val of
        None \<Rightarrow> (- EINVAL, st)
      | Some v \<Rightarrow>
          (case parse_capacities e al v st of
             (ret, st') \<Rightarrow>
               if ret \<noteq> 0 then (ret, st')
               else
                 (let len0 = length v;
                      len1 = (if len0 \<ge> MAX_CAPACITIES_LEN then MAX_CAPACITIES_LEN - 1 else len0);
                      len = (if len1 > 0 \<and> v ! (len1 - 1) = CHR 0x0A then len1 - 1 else len1)
                  in (0, st'\<lparr>capacities_buf := take len v\<rparr>))))"

definition capacities_get :: "cap_state \<Rightarrow> string" where
  "capacities_get st = take (PAGE_SIZE - 1) (capacities_buf st @ [CHR 0x0A])"

subsection \<open>Notions used to state the properties\<close>

text \<open>A CPU number that \<open>set_cpu_capacity\<close> accepts.\<close>

definition valid_cpu :: "env \<Rightarrow> nat \<Rightarrow> bool" where
  "valid_cpu e cpu \<longleftrightarrow> cpu < nr_cpu_ids e \<and> cpu_possible e cpu"

text \<open>Two states agree on everything but \<open>cpu_scale\<close>.\<close>

definition same_rest :: "cap_state \<Rightarrow> cap_state \<Rightarrow> bool" where
  "same_rest st st' \<longleftrightarrow>
     original_capacities st' = original_capacities st \<and>
     original_saved st' = original_saved st \<and>
     capacities_buf st' = capacities_buf st"

text \<open>
  The specs that the loop of \<open>parse_capacities\<close> hands to \<open>parse_capacity_spec\<close>, in
  order, and the effect of handing a list of specs to it one after the other, stopping
  at the first failure.
\<close>

function specs_of :: "string \<Rightarrow> string list" where
  "specs_of p =
     (if p = [] then []
      else if spec_of p \<noteq> [] then spec_of p # specs_of (next_of p)
      else specs_of (next_of p))"
  by pat_completeness auto
termination
  by (relation "measure length") (auto simp: length_next_of)

fun apply_specs :: "env \<Rightarrow> string list \<Rightarrow> cap_state \<Rightarrow> int \<times> cap_state" where
  "apply_specs e [] st = (0, st)"
| "apply_specs e (spec # specs) st =
     (case parse_capacity_spec e spec st of
        (ret, st') \<Rightarrow> if ret \<noteq> 0 then (ret, st') else apply_specs e specs st')"

text \<open>A sequence of writes to the parameter, each with its own allocation outcome.\<close>

fun run_sets :: "env \<Rightarrow> (alloc \<times> string option) list \<Rightarrow> cap_state \<Rightarrow> cap_state" where
  "run_sets e [] st = st"
| "run_sets e ((al, val) # calls) st = run_sets e calls (snd (capacities_set e al val st))"

text \<open>Removing one trailing newline, and the decimal numeral of a number.\<close>

definition strip_nl :: "string \<Rightarrow> string" where
  "strip_nl s = (if s \<noteq> [] \<and> last s = CHR 0x0A then butlast s else s)"

definition digit_char :: "nat \<Rightarrow> char" where
  "digit_char d = char_of (48 + d)"

fun dec :: "nat \<Rightarrow> string" where
  "dec n = (if n < 10 then [digit_char n] else dec (n div 10) @ [digit_char (n mod 10)])"

declare dec.simps [simp del]

text \<open>
  The text of a range spec with its numbers in decimal; strings of decimal digits and
  the number that such a string denotes after the digits read so far gave \<open>res\<close>.
\<close>

definition all_digits :: "string \<Rightarrow> bool" where
  "all_digits xs \<longleftrightarrow> (\<forall>c \<in> set xs. 48 \<le> (of_char c :: nat) \<and> (of_char c :: nat) \<le> 57)"

definition dval :: "nat \<Rightarrow> string \<Rightarrow> nat" where
  "dval res xs = foldl (\<lambda>a c. a * 10 + (of_char c - 48)) res xs"

definition range_spec :: "nat \<Rightarrow> nat \<Rightarrow> nat \<Rightarrow> string" where
  "range_spec s t v = dec s @ ''-'' @ dec t @ '':'' @ dec v"

text \<open>
  A machine with eight CPUs, all possible, every capacity at 1024, in the state the
  module has right after loading; and one where CPU 1 is not possible.
\<close>

definition env8 :: env where
  "env8 = \<lparr>nr_cpu_ids = 8, cpu_possible = (\<lambda>cpu. True)\<rparr>"

definition env_sparse :: env where
  "env_sparse = \<lparr>nr_cpu_ids = 8, cpu_possible = (\<lambda>cpu. cpu \<noteq> 1)\<rparr>"

definition st_loaded :: cap_state where
  "st_loaded = \<lparr>cpu_scale = (\<lambda>cpu. 1024), original_capacities = None,
                 original_saved = False, capacities_buf = []\<rparr>"

definition fresh :: alloc where
  "fresh = Some (\<lambda>cpu. 0)"

text \<open>What survives any write: everything but the capacities of valid CPUs.\<close>

definition keeps :: "env \<Rightarrow> cap_state \<Rightarrow> cap_state \<Rightarrow> bool" where
  "keeps e st st' \<longleftrightarrow>
     same_rest st st' \<and> (\<forall>i. \<not> valid_cpu e i \<longrightarrow> cpu_scale st' i = cpu_scale st i)"

text \<open>
  The relation between the state and the capacities \<open>init\<close> that the kernel had when the
  module was loaded: CPUs that are not valid still have them; while a snapshot is held it
  records them for the valid CPUs; while none is held the whole table still has them.
\<close>

definition snap_inv :: "env \<Rightarrow> (nat \<Rightarrow> nat) \<Rightarrow> cap_state \<Rightarrow> bool" where
  "snap_inv e init st \<longleftrightarrow>
     (\<forall>i. \<not> valid_cpu e i \<longrightarrow> cpu_scale st i = init i) \<and>
     (if original_saved st
      then \<exists>a. original_capacities st = Some a \<and> (\<forall>i. valid_cpu e i \<longrightarrow> a i = init i)
      else cpu_scale st = init)"

text \<open>Every call of a sequence of writes fails.\<close>

fun all_fail :: "env \<Rightarrow> (alloc \<times> string option) list \<Rightarrow> cap_state \<Rightarrow> bool" where
  "all_fail e [] st = True"
| "all_fail e ((al, val) # calls) st =
     (fst (capacities_set e al val st) \<noteq> 0 \<and> all_fail e calls (snd (capacities_set e al val st)))"

text \<open>A valid input of 256 characters: one spec, padded with blanks.\<close>

definition long_input :: string where
  "long_input = ''0:1'' @ replicate 253 CHR '' ''"






section \<open>Properties\<close>

subsection \<open>Writing capacities\<close>

declare apply_range.simps [simp del] parse_loop.simps [simp del] specs_of.simps [simp del]

lemma errno_nonzero: "EINVAL \<noteq> 0" "ERANGE \<noteq> 0" "ENOMEM \<noteq> 0"
  by (simp_all add: EINVAL_def ERANGE_def ENOMEM_def)

lemma same_rest_refl: "same_rest st st"
  by (simp add: same_rest_def)

lemma same_rest_trans: "same_rest a b \<Longrightarrow> same_rest b c \<Longrightarrow> same_rest a c"
  by (simp add: same_rest_def)

lemma set_cpu_capacity_cases:
  "set_cpu_capacity e cpu cap st =
     (if valid_cpu e cpu \<and> cap \<le> SCHED_CAPACITY_SCALE
      then (0, st\<lparr>cpu_scale := (cpu_scale st)(cpu := cap)\<rparr>)
      else (- EINVAL, st))"
  by (auto simp: set_cpu_capacity_def valid_cpu_def)

lemma apply_range_char:
  "apply_range e cap s t st = (ret, st') \<Longrightarrow>
   \<exists>k. s \<le> k \<and> k \<le> max s (t + 1) \<and>
       (ret = 0 \<longrightarrow> k = max s (t + 1)) \<and>
       (ret \<noteq> 0 \<longrightarrow> ret = - EINVAL \<and> k \<le> t \<and> \<not> (valid_cpu e k \<and> cap \<le> SCHED_CAPACITY_SCALE)) \<and>
       (\<forall>i. s \<le> i \<and> i < k \<longrightarrow> valid_cpu e i \<and> cap \<le> SCHED_CAPACITY_SCALE) \<and>
       cpu_scale st' = (\<lambda>i. if s \<le> i \<and> i < k then cap else cpu_scale st i) \<and>
       same_rest st st'"
proof (induction e cap s t st arbitrary: ret st' rule: apply_range.induct)
  case (1 e cap s t st)
  show ?case
  proof (cases "s \<le> t")
    case False
    with "1.prems" have "ret = 0" "st' = st" by (simp_all add: apply_range.simps)
    with False show ?thesis
      by (intro exI [of _ s]) (auto simp: same_rest_def)
  next
    case True
    note le = this
    show ?thesis
    proof (cases "valid_cpu e s \<and> cap \<le> SCHED_CAPACITY_SCALE")
      case False
      with le "1.prems" have "ret = - EINVAL" "st' = st"
        by (simp_all add: apply_range.simps [of e cap s] set_cpu_capacity_cases errno_nonzero)
      with False le show ?thesis
        by (intro exI [of _ s]) (auto simp: same_rest_def errno_nonzero)
    next
      case True
      define st1 where "st1 = st\<lparr>cpu_scale := (cpu_scale st)(s := cap)\<rparr>"
      have sc: "set_cpu_capacity e s cap st = (0, st1)"
        using True by (simp add: set_cpu_capacity_cases st1_def)
      with le "1.prems" have rec: "apply_range e cap (s + 1) t st1 = (ret, st')"
        by (simp add: apply_range.simps [of e cap s])
      from "1.IH" [OF le sc [symmetric] _ rec]
      obtain k where k: "s + 1 \<le> k" "k \<le> max (s + 1) (t + 1)"
        "ret = 0 \<longrightarrow> k = max (s + 1) (t + 1)"
        "ret \<noteq> 0 \<longrightarrow> ret = - EINVAL \<and> k \<le> t \<and> \<not> (valid_cpu e k \<and> cap \<le> SCHED_CAPACITY_SCALE)"
        "\<forall>i. s + 1 \<le> i \<and> i < k \<longrightarrow> valid_cpu e i \<and> cap \<le> SCHED_CAPACITY_SCALE"
        "cpu_scale st' = (\<lambda>i. if s + 1 \<le> i \<and> i < k then cap else cpu_scale st1 i)"
        "same_rest st1 st'"
        by auto
      have "cpu_scale st' = (\<lambda>i. if s \<le> i \<and> i < k then cap else cpu_scale st i)"
        using k(1) by (auto simp: k(6) st1_def fun_eq_iff)
      moreover have "same_rest st st'"
        using k(7) by (simp add: same_rest_def st1_def)
      moreover have "\<forall>i. s \<le> i \<and> i < k \<longrightarrow> valid_cpu e i \<and> cap \<le> SCHED_CAPACITY_SCALE"
        using k(5) True by (metis Suc_eq_plus1 Suc_leI le_neq_implies_less)
      ultimately show ?thesis
        using k(1-4) le by (intro exI [of _ k]) (auto simp: max_def)
    qed
  qed
qed


lemma keeps_refl: "keeps e st st"
  by (simp add: keeps_def same_rest_refl)

lemma keeps_trans: "keeps e a b \<Longrightarrow> keeps e b c \<Longrightarrow> keeps e a c"
  by (auto simp: keeps_def same_rest_def)

lemma apply_range_keeps:
  assumes "apply_range e cap s t st = (ret, st')"
  shows "keeps e st st'"
proof -
  from apply_range_char [OF assms] obtain k where
    v: "\<forall>i. s \<le> i \<and> i < k \<longrightarrow> valid_cpu e i \<and> cap \<le> SCHED_CAPACITY_SCALE" and
    c: "cpu_scale st' = (\<lambda>i. if s \<le> i \<and> i < k then cap else cpu_scale st i)" and
    r: "same_rest st st'"
    by blast
  show ?thesis
    unfolding keeps_def using v r by (auto simp: c)
qed

lemma parse_capacity_spec_keeps:
  "parse_capacity_spec e spec st = (ret, st') \<Longrightarrow> keeps e st st'"
  by (auto simp: parse_capacity_spec_def keeps_refl split: sum.splits prod.splits
           dest: apply_range_keeps)

lemma parse_capacity_spec_error:
  "spec_fields spec = Inl err \<Longrightarrow> parse_capacity_spec e spec st = (err, st)"
  by (simp add: parse_capacity_spec_def)

lemma apply_specs_keeps:
  "apply_specs e specs st = (ret, st') \<Longrightarrow> keeps e st st'"
proof (induction specs arbitrary: st)
  case Nil
  then show ?case by (simp add: keeps_refl)
next
  case (Cons spec specs)
  obtain r1 st1 where p: "parse_capacity_spec e spec st = (r1, st1)"
    by (cases "parse_capacity_spec e spec st")
  then have k1: "keeps e st st1" by (rule parse_capacity_spec_keeps)
  show ?case
  proof (cases "r1 = 0")
    case True
    with Cons.prems p have "apply_specs e specs st1 = (ret, st')" by simp
    then have "keeps e st1 st'" by (rule Cons.IH)
    with k1 show ?thesis by (rule keeps_trans)
  next
    case False
    with Cons.prems p have "st' = st1" by simp
    with k1 show ?thesis by simp
  qed
qed

lemma parse_loop_specs: "parse_loop e p st = apply_specs e (specs_of p) st"
proof (induction e p st rule: parse_loop.induct)
  case (1 e p st)
  show ?case
  proof (cases "p = []")
    case True
    then show ?thesis by (simp add: parse_loop.simps specs_of.simps)
  next
    case ne: False
    show ?thesis
    proof (cases "spec_of p = []")
      case True
      with ne "1.IH"(2) show ?thesis
        by (subst parse_loop.simps, subst specs_of.simps) simp
    next
      case False
      obtain r1 st1 where p: "parse_capacity_spec e (spec_of p) st = (r1, st1)"
        by (cases "parse_capacity_spec e (spec_of p) st")
      show ?thesis
      proof (cases "r1 = 0")
        case True
        with ne False p "1.IH"(1) [OF ne False p [symmetric]] show ?thesis
          by (subst parse_loop.simps, subst specs_of.simps) simp
      next
        case nz: False
        with ne False p show ?thesis
          by (subst parse_loop.simps, subst specs_of.simps) simp
      qed
    qed
  qed
qed

subsection \<open>Snapshot and restore\<close>

lemma fold_copy:
  "fold (\<lambda>cpu a. a(cpu := f cpu)) xs g = (\<lambda>i. if i \<in> set xs then f i else g i)"
  by (induction xs arbitrary: g) (auto simp: fun_eq_iff)

lemma set_possible_cpus: "i \<in> set (possible_cpus e) \<longleftrightarrow> valid_cpu e i"
  by (auto simp: possible_cpus_def valid_cpu_def)

lemma save_saved: "original_saved st \<Longrightarrow> save_original_capacities e al st = (0, st)"
  by (simp add: save_original_capacities_def)

lemma save_fresh:
  "\<not> original_saved st \<Longrightarrow>
   save_original_capacities e (Some g) st =
     (0, st\<lparr>original_capacities := Some (\<lambda>i. if valid_cpu e i then cpu_scale st i else g i),
            original_saved := True\<rparr>)"
  by (simp add: save_original_capacities_def fold_copy set_possible_cpus)

lemma save_failed:
  "\<not> original_saved st \<Longrightarrow>
   save_original_capacities e None st = (- ENOMEM, st\<lparr>original_capacities := None\<rparr>)"
  by (simp add: save_original_capacities_def)

lemma restore_saved:
  "original_saved st \<Longrightarrow> original_capacities st = Some a \<Longrightarrow>
   restore_original_capacities e st =
     st\<lparr>cpu_scale := (\<lambda>i. if valid_cpu e i then a i else cpu_scale st i),
        original_capacities := None, original_saved := False\<rparr>"
  by (simp add: restore_original_capacities_def fold_copy set_possible_cpus)

lemma restore_unsaved:
  "\<not> original_saved st \<Longrightarrow> restore_original_capacities e st = st"
  by (simp add: restore_original_capacities_def)

lemma snap_inv_start: "\<not> original_saved st \<Longrightarrow> snap_inv e (cpu_scale st) st"
  by (simp add: snap_inv_def)

lemma snap_inv_save:
  assumes "snap_inv e init st" and "save_original_capacities e al st = (ret, st1)"
  shows "snap_inv e init st1 \<and> cpu_scale st1 = cpu_scale st \<and>
         capacities_buf st1 = capacities_buf st \<and> (ret = 0 \<longrightarrow> original_saved st1) \<and>
         (ret = 0 \<or> ret = - ENOMEM)"
proof (cases "original_saved st")
  case True
  with assms show ?thesis by (simp add: save_saved)
next
  case False
  with assms show ?thesis
    by (cases al) (auto simp: save_failed save_fresh snap_inv_def errno_nonzero)
qed

lemma snap_inv_keeps:
  "snap_inv e init st \<Longrightarrow> original_saved st \<Longrightarrow> keeps e st st' \<Longrightarrow> snap_inv e init st'"
  by (auto simp: snap_inv_def keeps_def same_rest_def)

lemma snap_inv_buf: "snap_inv e init st \<Longrightarrow> snap_inv e init (st\<lparr>capacities_buf := b\<rparr>)"
  by (simp add: snap_inv_def)

lemma snap_inv_parse_capacities:
  assumes "snap_inv e init st" and "parse_capacities e al str st = (ret, st')"
  shows "snap_inv e init st'"
proof (cases "skip_space str = []")
  case True
  with assms show ?thesis by (simp add: parse_capacities_def)
next
  case False
  obtain r1 st1 where sv: "save_original_capacities e al st = (r1, st1)"
    by (cases "save_original_capacities e al st")
  from snap_inv_save [OF assms(1) sv]
  have i1: "snap_inv e init st1" and s1: "r1 = 0 \<longrightarrow> original_saved st1" by simp_all
  show ?thesis
  proof (cases "r1 = 0")
    case True
    with False sv assms(2) have "apply_specs e (specs_of (skip_space str)) st1 = (ret, st')"
      by (simp add: parse_capacities_def parse_loop_specs)
    then have "keeps e st1 st'" by (rule apply_specs_keeps)
    with i1 s1 True show ?thesis by (blast intro: snap_inv_keeps)
  next
    case nz: False
    with False sv assms(2) have "st' = st1" by (simp add: parse_capacities_def)
    with i1 show ?thesis by simp
  qed
qed

lemma snap_inv_capacities_set:
  assumes "snap_inv e init st"
  shows "snap_inv e init (snd (capacities_set e al val st))"
proof (cases val)
  case None
  with assms show ?thesis by (simp add: capacities_set_def)
next
  case (Some v)
  obtain ret st' where p: "parse_capacities e al v st = (ret, st')"
    by (cases "parse_capacities e al v st")
  from snap_inv_parse_capacities [OF assms p] have "snap_inv e init st'" .
  with Some p show ?thesis
    by (simp add: capacities_set_def Let_def snap_inv_buf)
qed

lemma snap_inv_run_sets:
  "snap_inv e init st \<Longrightarrow> snap_inv e init (run_sets e calls st)"
  by (induction calls arbitrary: st) (auto simp: snap_inv_capacities_set)

lemma snap_inv_restore:
  assumes "snap_inv e init st"
  shows "cpu_scale (restore_original_capacities e st) = init"
proof (cases "original_saved st")
  case False
  with assms show ?thesis by (simp add: restore_unsaved snap_inv_def)
next
  case True
  with assms obtain a where a: "original_capacities st = Some a"
    and ai: "\<forall>i. valid_cpu e i \<longrightarrow> a i = init i"
    and ni: "\<forall>i. \<not> valid_cpu e i \<longrightarrow> cpu_scale st i = init i"
    by (auto simp: snap_inv_def)
  show ?thesis
    using ai ni by (auto simp: restore_saved [OF True a] fun_eq_iff)
qed

lemma snap_inv_restore_clears:
  "snap_inv e init st \<Longrightarrow> \<not> original_saved (restore_original_capacities e st)"
  by (auto simp: restore_original_capacities_def snap_inv_def split: option.splits)

subsection \<open>Evaluating the model on concrete inputs\<close>

lemmas run_defs =
  capacities_set_def parse_capacities_def skip_space_def isspace_def
  save_original_capacities_def restore_original_capacities_def cpu_capacity_mod_exit_def
  possible_cpus_def parse_loop.simps spec_of_def next_of_def
  trim_right_def before_def after_def parse_capacity_spec_def spec_fields_def
  kstrtoul_def kstrtouint_def kstrtoull_def fixup_radix_def digit_val_def
  apply_range.simps set_cpu_capacity_def capacities_get_def
  EINVAL_def ERANGE_def ENOMEM_def SCHED_CAPACITY_SCALE_def MAX_CAPACITIES_LEN_def PAGE_SIZE_def
  env8_def env_sparse_def st_loaded_def fresh_def Let_def

subsection \<open>Restoring on unload\<close>

text \<open>
  C2. Start in a state that holds no snapshot, as the module is after loading, and let any
  sequence of writes to the parameter run (each may succeed or fail, and each may find
  the allocator willing or not). Unloading the module then puts back exactly the
  capacities of the start, which are those before the first write that changed
  anything. The saved flag is cleared and the snapshot pointer, if one was held, is
  reset, so that the next call of \<open>save_original_capacities\<close> takes a new snapshot (of the
  restored capacities). When no snapshot is held, unloading changes nothing at all.
\<close>


theorem restore_after_sets:
  assumes "\<not> original_saved st"
  shows "cpu_scale (cpu_capacity_mod_exit e (run_sets e calls st)) = cpu_scale st \<and>
         \<not> original_saved (cpu_capacity_mod_exit e (run_sets e calls st)) \<and>
         (original_saved (run_sets e calls st) \<longrightarrow>
            original_capacities (cpu_capacity_mod_exit e (run_sets e calls st)) = None) \<and>
         (\<not> original_saved (run_sets e calls st) \<longrightarrow>
            cpu_capacity_mod_exit e (run_sets e calls st) = run_sets e calls st) \<and>
         (\<exists>a. save_original_capacities e (Some g) (cpu_capacity_mod_exit e (run_sets e calls st)) =
                (0, (cpu_capacity_mod_exit e (run_sets e calls st))
                      \<lparr>original_capacities := Some a, original_saved := True\<rparr>) \<and>
              (\<forall>i. valid_cpu e i \<longrightarrow> a i = cpu_scale st i))"
proof -
  let ?s = "run_sets e calls st"
  let ?r = "cpu_capacity_mod_exit e ?s"
  have inv: "snap_inv e (cpu_scale st) ?s"
    using assms by (intro snap_inv_run_sets snap_inv_start)
  have c: "cpu_scale ?r = cpu_scale st"
    unfolding cpu_capacity_mod_exit_def using inv by (rule snap_inv_restore)
  have f: "\<not> original_saved ?r"
    unfolding cpu_capacity_mod_exit_def using inv by (rule snap_inv_restore_clears)
  have n: "original_saved ?s \<longrightarrow> original_capacities ?r = None"
    using inv by (auto simp: cpu_capacity_mod_exit_def snap_inv_def restore_saved)
  have u: "\<not> original_saved ?s \<longrightarrow> ?r = ?s"
    by (simp add: cpu_capacity_mod_exit_def restore_unsaved)
  have a: "\<exists>a. save_original_capacities e (Some g) ?r =
                (0, ?r\<lparr>original_capacities := Some a, original_saved := True\<rparr>) \<and>
              (\<forall>i. valid_cpu e i \<longrightarrow> a i = cpu_scale st i)"
    using f c
    by (intro exI [of _ "\<lambda>i. if valid_cpu e i then cpu_scale ?r i else g i"])
       (simp add: save_fresh)
  from c f n u a show ?thesis by blast
qed

theorem restore_after_sets_witness:
  "\<not> original_saved st_loaded \<and>
   cpu_scale (run_sets env8 [(fresh, Some ''0-3:1024,4-7:512''), (None, Some ''4:7'')] st_loaded) 4 = 7 \<and>
   original_saved (run_sets env8 [(fresh, Some ''0-3:1024,4-7:512''), (None, Some ''4:7'')] st_loaded) \<and>
   cpu_scale (cpu_capacity_mod_exit env8
     (run_sets env8 [(fresh, Some ''0-3:1024,4-7:512''), (None, Some ''4:7'')] st_loaded)) =
     cpu_scale st_loaded \<and>
   \<not> original_saved (cpu_capacity_mod_exit env8
     (run_sets env8 [(fresh, Some ''0-3:1024,4-7:512''), (None, Some ''4:7'')] st_loaded))"
proof -
  let ?calls = "[(fresh, Some ''0-3:1024,4-7:512''), (None, Some ''4:7'')]"
  have h: "\<not> original_saved st_loaded" by (simp add: st_loaded_def)
  have r: "cpu_scale (run_sets env8 ?calls st_loaded) 4 = 7 \<and>
           original_saved (run_sets env8 ?calls st_loaded)"
    by (simp add: run_defs)
  from h r restore_after_sets [OF h, of env8 ?calls] show ?thesis by blast
qed

subsection \<open>The steps of a write\<close>

lemma save_frame:
  "save_original_capacities e al st = (ret, st1) \<Longrightarrow>
   cpu_scale st1 = cpu_scale st \<and> capacities_buf st1 = capacities_buf st"
  by (auto simp: save_original_capacities_def split: if_splits option.splits)

lemma save_result:
  "save_original_capacities e al st = (ret, st1) \<Longrightarrow>
   (ret = 0 \<and> original_saved st1) \<or> (ret = - ENOMEM \<and> al = None \<and> \<not> original_saved st)"
  by (auto simp: save_original_capacities_def split: if_splits option.splits)

lemma parse_capacities_blank:
  "skip_space str = [] \<Longrightarrow> parse_capacities e al str st = (0, st)"
  by (simp add: parse_capacities_def)

lemma parse_capacities_specs:
  "skip_space str \<noteq> [] \<Longrightarrow>
   parse_capacities e al str st =
     (case save_original_capacities e al st of
        (ret, st1) \<Rightarrow>
          if ret \<noteq> 0 then (ret, st1) else apply_specs e (specs_of (skip_space str)) st1)"
  by (simp add: parse_capacities_def parse_loop_specs split: prod.splits)

lemma parse_capacities_buf:
  assumes "parse_capacities e al str st = (ret, st')"
  shows "capacities_buf st' = capacities_buf st"
proof (cases "skip_space str = []")
  case True
  with assms show ?thesis by (simp add: parse_capacities_blank)
next
  case False
  obtain r1 st1 where sv: "save_original_capacities e al st = (r1, st1)"
    by (cases "save_original_capacities e al st")
  then have b1: "capacities_buf st1 = capacities_buf st" by (simp add: save_frame)
  show ?thesis
  proof (cases "r1 = 0")
    case True
    with False sv assms have "apply_specs e (specs_of (skip_space str)) st1 = (ret, st')"
      by (simp add: parse_capacities_specs)
    then have "keeps e st1 st'" by (rule apply_specs_keeps)
    with b1 show ?thesis by (simp add: keeps_def same_rest_def)
  next
    case nz: False
    with False sv assms have "st' = st1" by (simp add: parse_capacities_specs)
    with b1 show ?thesis by simp
  qed
qed

lemma capacities_set_failed:
  assumes "capacities_set e al val st = (ret, st')" and "ret \<noteq> 0"
  shows "capacities_buf st' = capacities_buf st"
proof (cases val)
  case None
  with assms show ?thesis by (simp add: capacities_set_def)
next
  case (Some v)
  obtain r s where p: "parse_capacities e al v st = (r, s)"
    by (cases "parse_capacities e al v st")
  with Some assms have "st' = s"
    by (auto simp: capacities_set_def Let_def split: if_splits)
  with p show ?thesis by (simp add: parse_capacities_buf)
qed

lemma strip_nl_take:
  assumes "n \<le> length v"
  shows "strip_nl (take n v) = take (if n > 0 \<and> v ! (n - 1) = CHR 0x0A then n - 1 else n) v"
proof (cases "n = 0")
  case True
  then show ?thesis by (simp add: strip_nl_def)
next
  case False
  with assms have ne: "take n v \<noteq> []" by auto
  have "last (take n v) = v ! (n - 1)"
    using False assms ne by (simp add: last_conv_nth min_def)
  moreover have "butlast (take n v) = take (n - 1) v"
    using assms by (simp add: butlast_take)
  ultimately show ?thesis
    using False ne by (simp add: strip_nl_def)
qed

lemma stored_length:
  "take (let len0 = length v;
             len1 = (if len0 \<ge> MAX_CAPACITIES_LEN then MAX_CAPACITIES_LEN - 1 else len0)
         in if len1 > 0 \<and> v ! (len1 - 1) = CHR 0x0A then len1 - 1 else len1) v =
   strip_nl (take (MAX_CAPACITIES_LEN - 1) v)"
proof -
  define n where "n = (if length v \<ge> MAX_CAPACITIES_LEN then MAX_CAPACITIES_LEN - 1 else length v)"
  have le: "n \<le> length v" by (auto simp: n_def)
  have "take (MAX_CAPACITIES_LEN - 1) v = take n v" by (simp add: n_def)
  then show ?thesis
    unfolding Let_def n_def [symmetric] by (simp only: strip_nl_take [OF le])
qed

lemma capacities_set_ok:
  assumes "capacities_set e al (Some v) st = (0, st')"
  shows "\<exists>s. parse_capacities e al v st = (0, s) \<and>
             st' = s\<lparr>capacities_buf := strip_nl (take (MAX_CAPACITIES_LEN - 1) v)\<rparr>"
proof -
  obtain r s where p: "parse_capacities e al v st = (r, s)"
    by (cases "parse_capacities e al v st")
  with assms have r: "r = 0"
    by (auto simp: capacities_set_def split: if_splits)
  with assms p have "st' = s\<lparr>capacities_buf := strip_nl (take (MAX_CAPACITIES_LEN - 1) v)\<rparr>"
    using stored_length [of v] by (simp add: capacities_set_def Let_def)
  with p r show ?thesis by simp
qed

lemma length_strip_nl: "length (strip_nl s) \<le> length s"
  by (simp add: strip_nl_def)

lemma get_short:
  "length (capacities_buf st) < MAX_CAPACITIES_LEN \<Longrightarrow>
   capacities_get st = capacities_buf st @ [CHR 0x0A]"
  by (simp add: capacities_get_def MAX_CAPACITIES_LEN_def PAGE_SIZE_def)


lemma parse_capacities_saved:
  assumes "original_saved st" and "parse_capacities e al str st = (ret, st')"
  shows "keeps e st st'"
proof (cases "skip_space str = []")
  case True
  with assms show ?thesis by (simp add: parse_capacities_blank keeps_refl)
next
  case False
  with assms have "apply_specs e (specs_of (skip_space str)) st = (ret, st')"
    by (simp add: parse_capacities_specs save_saved)
  then show ?thesis by (rule apply_specs_keeps)
qed

lemma capacities_set_saved:
  assumes "original_saved st" and "capacities_set e al val st = (ret, st')"
  shows "original_capacities st' = original_capacities st \<and> original_saved st'"
proof (cases val)
  case None
  with assms show ?thesis by (simp add: capacities_set_def)
next
  case (Some v)
  obtain r s where p: "parse_capacities e al v st = (r, s)"
    by (cases "parse_capacities e al v st")
  from parse_capacities_saved [OF assms(1) p]
  have "original_capacities s = original_capacities st \<and> original_saved s"
    using assms(1) by (simp add: keeps_def same_rest_def)
  with Some p assms(2) show ?thesis
    by (auto simp: capacities_set_def Let_def split: if_splits)
qed

subsection \<open>The snapshot is taken once\<close>

text \<open>
  C3. While the saved flag holds, \<open>save_original_capacities\<close> returns 0 and changes
  nothing, whatever the allocator would do. While it does not hold, a call with a
  successful allocation sets the flag and stores an array that holds the current
  capacity of every valid CPU. And when two writes to the parameter succeed one after
  the other, starting without a snapshot, the snapshot held afterwards still records the
  capacities from before the first write; if the first write took the snapshot, the
  second leaves the array as it is.
\<close>


theorem snapshot_taken_once:
  "(original_saved st \<longrightarrow> save_original_capacities e al st = (0, st)) \<and>
   (\<not> original_saved st \<longrightarrow>
      (\<exists>a. save_original_capacities e (Some g) st =
              (0, st\<lparr>original_capacities := Some a, original_saved := True\<rparr>) \<and>
            (\<forall>i. valid_cpu e i \<longrightarrow> a i = cpu_scale st i))) \<and>
   (\<not> original_saved st \<and>
    capacities_set e al1 val1 st = (0, st1) \<and>
    capacities_set e al2 val2 st1 = (0, st2) \<and> original_saved st2 \<longrightarrow>
      (\<exists>a. original_capacities st2 = Some a \<and>
            (\<forall>i. valid_cpu e i \<longrightarrow> a i = cpu_scale st i)) \<and>
      (original_saved st1 \<longrightarrow> original_capacities st2 = original_capacities st1))"
proof (intro conjI impI)
  assume "original_saved st"
  then show "save_original_capacities e al st = (0, st)" by (rule save_saved)
next
  assume "\<not> original_saved st"
  then show "\<exists>a. save_original_capacities e (Some g) st =
              (0, st\<lparr>original_capacities := Some a, original_saved := True\<rparr>) \<and>
            (\<forall>i. valid_cpu e i \<longrightarrow> a i = cpu_scale st i)"
    by (intro exI [of _ "\<lambda>i. if valid_cpu e i then cpu_scale st i else g i"])
       (simp add: save_fresh)
next
  assume a: "\<not> original_saved st \<and>
    capacities_set e al1 val1 st = (0, st1) \<and>
    capacities_set e al2 val2 st1 = (0, st2) \<and> original_saved st2"
  then have "snap_inv e (cpu_scale st) st" by (simp add: snap_inv_start)
  then have "snap_inv e (cpu_scale st) (snd (capacities_set e al1 val1 st))"
    by (rule snap_inv_capacities_set)
  with a have "snap_inv e (cpu_scale st) st1" by simp
  then have "snap_inv e (cpu_scale st) (snd (capacities_set e al2 val2 st1))"
    by (rule snap_inv_capacities_set)
  with a have "snap_inv e (cpu_scale st) st2" by simp
  with a show "\<exists>a. original_capacities st2 = Some a \<and>
            (\<forall>i. valid_cpu e i \<longrightarrow> a i = cpu_scale st i)"
    by (simp add: snap_inv_def)
next
  assume a: "\<not> original_saved st \<and>
    capacities_set e al1 val1 st = (0, st1) \<and>
    capacities_set e al2 val2 st1 = (0, st2) \<and> original_saved st2"
    and s1: "original_saved st1"
  from a have "capacities_set e al2 val2 st1 = (0, st2)" by simp
  from capacities_set_saved [OF s1 this]
  show "original_capacities st2 = original_capacities st1" by simp
qed

theorem snapshot_taken_once_witness:
  "\<not> original_saved st_loaded \<and>
   fst (capacities_set env8 fresh (Some ''0:100'') st_loaded) = 0 \<and>
   fst (capacities_set env8 None (Some ''0-1:200'')
          (snd (capacities_set env8 fresh (Some ''0:100'') st_loaded))) = 0 \<and>
   cpu_scale (snd (capacities_set env8 None (Some ''0-1:200'')
          (snd (capacities_set env8 fresh (Some ''0:100'') st_loaded)))) 0 = 200 \<and>
   (\<exists>a. original_capacities (snd (capacities_set env8 None (Some ''0-1:200'')
          (snd (capacities_set env8 fresh (Some ''0:100'') st_loaded)))) = Some a \<and>
        a 0 = cpu_scale st_loaded 0 \<and> a 1 = cpu_scale st_loaded 1)"
proof -
  let ?c1 = "capacities_set env8 fresh (Some ''0:100'') st_loaded"
  let ?c2 = "capacities_set env8 None (Some ''0-1:200'') (snd ?c1)"
  have h: "\<not> original_saved st_loaded" by (simp add: st_loaded_def)
  have r1: "fst ?c1 = 0" by (simp add: run_defs)
  have r2: "fst ?c2 = 0" by (simp add: run_defs)
  have v: "cpu_scale (snd ?c2) 0 = 200" by (simp add: run_defs)
  have s2: "original_saved (snd ?c2)" by (simp add: run_defs)
  have v0: "valid_cpu env8 0" "valid_cpu env8 1" by (simp_all add: valid_cpu_def env8_def)
  have e1: "?c1 = (0, snd ?c1)" using r1 by (simp add: prod_eq_iff)
  have e2: "?c2 = (0, snd ?c2)" using r2 by (simp add: prod_eq_iff)
  from snapshot_taken_once [of st_loaded env8 _ _ fresh "Some ''0:100''" "snd ?c1"
        None "Some ''0-1:200''" "snd ?c2"] h e1 e2 s2
  obtain a where "original_capacities (snd ?c2) = Some a"
    "\<forall>i. valid_cpu env8 i \<longrightarrow> a i = cpu_scale st_loaded i"
    by blast
  with v0 have "\<exists>a. original_capacities (snd ?c2) = Some a \<and>
        a 0 = cpu_scale st_loaded 0 \<and> a 1 = cpu_scale st_loaded 1"
    by blast
  with h r1 r2 v show ?thesis by blast
qed

subsection \<open>The string read back\<close>

text \<open>
  C6. A write that fails, for whatever reason, leaves \<open>capacities_buf\<close> as it was. So
  after any run of failing writes a read returns what it returned before them: the
  string stored by the last write that succeeded, or the empty line when the buffer was
  still empty.
\<close>

theorem failed_writes_keep_string:
  "all_fail e calls st \<Longrightarrow>
   capacities_buf (run_sets e calls st) = capacities_buf st \<and>
   capacities_get (run_sets e calls st) = capacities_get st \<and>
   (capacities_buf st = [] \<longrightarrow> capacities_get (run_sets e calls st) = [CHR 0x0A])"
proof -
  assume f: "all_fail e calls st"
  then have b: "capacities_buf (run_sets e calls st) = capacities_buf st"
  proof (induction calls arbitrary: st)
    case Nil
    then show ?case by simp
  next
    case (Cons c calls)
    obtain al val where c: "c = (al, val)" by (cases c)
    let ?r = "capacities_set e al val st"
    from Cons.prems c have f: "fst ?r \<noteq> 0" and rest: "all_fail e calls (snd ?r)"
      by simp_all
    have "capacities_buf (snd ?r) = capacities_buf st"
      using f capacities_set_failed [of e al val st "fst ?r" "snd ?r"] by simp
    with Cons.IH [OF rest] c show ?case by simp
  qed
  then have g: "capacities_get (run_sets e calls st) = capacities_get st"
    by (simp add: capacities_get_def)
  have "capacities_buf st = [] \<longrightarrow> capacities_get st = [CHR 0x0A]"
    by (simp add: capacities_get_def PAGE_SIZE_def)
  with b g show ?thesis by simp
qed

theorem failed_writes_keep_string_witness:
  "all_fail env8
     [(None, Some ''0:1''), (fresh, None), (fresh, Some ''0:2000''),
      (fresh, Some ''9:100''), (fresh, Some ''5-2:100''), (fresh, Some ''0:1,xyz'')] st_loaded \<and>
   capacities_get (run_sets env8
     [(None, Some ''0:1''), (fresh, None), (fresh, Some ''0:2000''),
      (fresh, Some ''9:100''), (fresh, Some ''5-2:100''), (fresh, Some ''0:1,xyz'')] st_loaded) =
     [CHR 0x0A] \<and>
   fst (capacities_set env8 fresh (Some ''0:768'') st_loaded) = 0 \<and>
   all_fail env8 [(fresh, Some ''0:2000''), (fresh, Some ''1:5,9:100'')]
     (snd (capacities_set env8 fresh (Some ''0:768'') st_loaded)) \<and>
   capacities_get (run_sets env8 [(fresh, Some ''0:2000''), (fresh, Some ''1:5,9:100'')]
     (snd (capacities_set env8 fresh (Some ''0:768'') st_loaded))) = ''0:768'' @ [CHR 0x0A]"
proof -
  let ?calls = "[(None, Some ''0:1''), (fresh, None), (fresh, Some ''0:2000''),
      (fresh, Some ''9:100''), (fresh, Some ''5-2:100''), (fresh, Some ''0:1,xyz'')]"
  let ?st1 = "snd (capacities_set env8 fresh (Some ''0:768'') st_loaded)"
  let ?more = "[(fresh, Some ''0:2000''), (fresh, Some ''1:5,9:100'')]"
  have f: "all_fail env8 ?calls st_loaded" by (simp add: run_defs)
  have b: "capacities_buf st_loaded = []" by (simp add: st_loaded_def)
  have ok: "fst (capacities_set env8 fresh (Some ''0:768'') st_loaded) = 0"
    by (simp add: run_defs)
  have f1: "all_fail env8 ?more ?st1" by (simp add: run_defs)
  have g1: "capacities_get ?st1 = ''0:768'' @ [CHR 0x0A]" by (simp add: run_defs)
  from failed_writes_keep_string [OF f] b
  have "capacities_get (run_sets env8 ?calls st_loaded) = [CHR 0x0A]" by blast
  moreover from failed_writes_keep_string [OF f1] g1
  have "capacities_get (run_sets env8 ?more ?st1) = ''0:768'' @ [CHR 0x0A]" by simp
  ultimately show ?thesis using f ok f1 by blast
qed

lemma capacities_set_fst:
  "fst (capacities_set e al (Some v) st) = fst (parse_capacities e al v st)"
  by (cases "parse_capacities e al v st") (simp add: capacities_set_def Let_def)

lemma trim_right_pad: "trim_right (s @ replicate n CHR '' '') = trim_right s"
proof -
  have "dropWhile isspace (replicate n CHR '' '' @ rev s) = dropWhile isspace (rev s)"
    by (rule dropWhile_append2) (simp add: isspace_def)
  then show ?thesis by (simp add: trim_right_def)
qed

lemma set_ok_buf:
  "capacities_set e al (Some s) st = (0, st') \<Longrightarrow>
   capacities_buf st' = strip_nl (take (MAX_CAPACITIES_LEN - 1) s)"
  by (auto dest: capacities_set_ok)

text \<open>
  C7 (amended). After a successful write of \<open>s\<close>, a read returns the first 255
  characters of \<open>s\<close>, without one trailing newline if they end in one, followed by a
  newline. For an \<open>s\<close> shorter than 256 characters that is \<open>s\<close> itself up to the one
  trailing newline. A longer \<open>s\<close> is cut: the input \<open>long_input\<close> is accepted, and the
  read does not return it.
\<close>

theorem read_back_after_write:
  "capacities_set e al (Some s) st = (0, st') \<Longrightarrow>
   capacities_get st' = strip_nl (take (MAX_CAPACITIES_LEN - 1) s) @ [CHR 0x0A] \<and>
   (length s < MAX_CAPACITIES_LEN \<longrightarrow> capacities_get st' = strip_nl s @ [CHR 0x0A])"
proof -
  assume a: "capacities_set e al (Some s) st = (0, st')"
  then have b: "capacities_buf st' = strip_nl (take (MAX_CAPACITIES_LEN - 1) s)"
    by (rule set_ok_buf)
  have "length (strip_nl (take (MAX_CAPACITIES_LEN - 1) s)) \<le> MAX_CAPACITIES_LEN - 1"
    using length_strip_nl [of "take (MAX_CAPACITIES_LEN - 1) s"] by simp
  then have "length (capacities_buf st') < MAX_CAPACITIES_LEN"
    by (simp add: b MAX_CAPACITIES_LEN_def)
  then have "capacities_get st' = capacities_buf st' @ [CHR 0x0A]" by (rule get_short)
  with b show ?thesis by simp
qed

theorem read_back_after_write_witness:
  "fst (capacities_set env8 fresh (Some (''0-3:1024,4-7:512'' @ [CHR 0x0A])) st_loaded) = 0 \<and>
   length (''0-3:1024,4-7:512'' @ [CHR 0x0A]) < MAX_CAPACITIES_LEN \<and>
   capacities_get (snd (capacities_set env8 fresh (Some (''0-3:1024,4-7:512'' @ [CHR 0x0A])) st_loaded)) =
     ''0-3:1024,4-7:512'' @ [CHR 0x0A]"
proof -
  let ?s = "''0-3:1024,4-7:512'' @ [CHR 0x0A]"
  let ?r = "capacities_set env8 fresh (Some ?s) st_loaded"
  have f: "fst ?r = 0" by (simp add: run_defs)
  then have ok: "?r = (0, snd ?r)" by (simp add: prod_eq_iff)
  have l: "length ?s < MAX_CAPACITIES_LEN" by (simp add: MAX_CAPACITIES_LEN_def)
  have n: "strip_nl ?s = ''0-3:1024,4-7:512''" by (simp add: strip_nl_def)
  from read_back_after_write [OF ok] l n
  have "capacities_get (snd ?r) = ''0-3:1024,4-7:512'' @ [CHR 0x0A]" by simp
  with f l show ?thesis by blast
qed

text \<open>
  The input \<open>long_input\<close> has 256 characters; the write succeeds, and the read returns
  at most 256 characters where the input followed by a newline has 257.
\<close>

theorem read_back_counterexample:
  "length long_input = MAX_CAPACITIES_LEN \<and>
   fst (capacities_set env8 fresh (Some long_input) st_loaded) = 0 \<and>
   capacities_get (snd (capacities_set env8 fresh (Some long_input) st_loaded))
     \<noteq> strip_nl long_input @ [CHR 0x0A]"
proof -
  let ?r = "capacities_set env8 fresh (Some long_input) st_loaded"
  have len: "length long_input = 256" by (simp add: long_input_def)
  have sk: "skip_space long_input = long_input"
    by (simp add: long_input_def skip_space_def isspace_def)
  have ne: "long_input \<noteq> []" by (simp add: long_input_def)
  have bf: "before CHR '','' long_input = long_input"
    by (simp add: long_input_def before_def)
  have so: "spec_of long_input = ''0:1''"
    unfolding spec_of_def bf unfolding long_input_def trim_right_pad
    by (simp add: trim_right_def isspace_def)
  have nx: "next_of long_input = []"
    unfolding next_of_def so by (simp add: long_input_def skip_space_def isspace_def)
  have sp: "specs_of long_input = [''0:1'']"
    by (subst specs_of.simps) (simp add: so nx ne specs_of.simps [of "[]"])
  have "fst (parse_capacities env8 fresh long_input st_loaded) = 0"
    unfolding parse_capacities_specs [of long_input, unfolded sk, OF ne] sp
    by (simp add: run_defs)
  then have ok: "fst ?r = 0"
    by (simp add: capacities_set_fst)
  then have eq: "?r = (0, snd ?r)" by (simp add: prod_eq_iff)
  have "capacities_buf (snd ?r) = strip_nl (take (MAX_CAPACITIES_LEN - 1) long_input)"
    using eq by (rule set_ok_buf)
  then have "length (capacities_buf (snd ?r)) \<le> 255"
    using length_strip_nl [of "take (MAX_CAPACITIES_LEN - 1) long_input"]
    by (simp add: MAX_CAPACITIES_LEN_def)
  then have l1: "length (capacities_get (snd ?r)) \<le> 256"
    by (simp add: capacities_get_def)
  have "last long_input = CHR '' ''" by (simp add: long_input_def)
  then have "strip_nl long_input = long_input" by (simp add: strip_nl_def)
  then have l2: "length (strip_nl long_input @ [CHR 0x0A]) = 257"
    by (simp add: len)
  from l1 l2 have "capacities_get (snd ?r) \<noteq> strip_nl long_input @ [CHR 0x0A]"
    by auto
  with ok len show ?thesis by (simp add: MAX_CAPACITIES_LEN_def)
qed

subsection \<open>Blank input\<close>

lemma skip_space_blank: "(\<forall>c \<in> set v. isspace c) \<Longrightarrow> skip_space v = []"
  by (simp add: skip_space_def)

lemma strip_nl_Nil_iff: "strip_nl t = [] \<longleftrightarrow> t = [] \<or> t = [CHR 0x0A]"
proof (cases t rule: rev_cases)
  case Nil
  then show ?thesis by (simp add: strip_nl_def)
next
  case (snoc ys y)
  then show ?thesis by (auto simp: strip_nl_def)
qed

lemma take_eq_single: "0 < n \<Longrightarrow> take n v = [x] \<longleftrightarrow> (v = [x] \<or> (n = 1 \<and> v \<noteq> [] \<and> hd v = x))"
  by (cases v; cases n) auto

text \<open>
  C8 (amended). An input that consists of whitespace only (the empty input included) is
  accepted; the capacities, the snapshot pointer and the saved flag stay as they are;
  and the buffer receives the first 255 characters of the input without one trailing
  newline. The buffer becomes empty exactly when the input is empty or a single newline;
  a single blank, for one, is stored and read back as it is.
\<close>

theorem blank_input:
  "\<forall>c \<in> set v. isspace c \<Longrightarrow>
   capacities_set e al (Some v) st =
     (0, st\<lparr>capacities_buf := strip_nl (take (MAX_CAPACITIES_LEN - 1) v)\<rparr>) \<and>
   (strip_nl (take (MAX_CAPACITIES_LEN - 1) v) = [] \<longleftrightarrow> v = [] \<or> v = [CHR 0x0A])"
proof -
  assume "\<forall>c \<in> set v. isspace c"
  then have "skip_space v = []" by (rule skip_space_blank)
  then have p: "parse_capacities e al v st = (0, st)" by (rule parse_capacities_blank)
  have "capacities_set e al (Some v) st =
     (0, st\<lparr>capacities_buf := strip_nl (take (MAX_CAPACITIES_LEN - 1) v)\<rparr>)"
    using stored_length [of v] by (simp add: capacities_set_def p Let_def)
  moreover have "strip_nl (take (MAX_CAPACITIES_LEN - 1) v) = [] \<longleftrightarrow> v = [] \<or> v = [CHR 0x0A]"
    by (auto simp: strip_nl_Nil_iff take_eq_single MAX_CAPACITIES_LEN_def)
  ultimately show ?thesis by simp
qed

theorem blank_input_witness:
  "isspace (CHR 0x09) \<and> isspace CHR '' '' \<and> isspace (CHR 0x0A) \<and>
   capacities_set env8 None (Some [CHR 0x09, CHR '' '', CHR 0x0A]) st_loaded =
     (0, st_loaded\<lparr>capacities_buf := [CHR 0x09, CHR '' '']\<rparr>) \<and>
   capacities_set env8 None (Some [CHR 0x0A]) st_loaded = (0, st_loaded\<lparr>capacities_buf := []\<rparr>)"
proof -
  have h: "\<forall>c \<in> set [CHR 0x09, CHR '' '', CHR 0x0A]. isspace c" by (simp add: isspace_def)
  have h1: "\<forall>c \<in> set [CHR 0x0A]. isspace c" by (simp add: isspace_def)
  have s: "strip_nl (take (MAX_CAPACITIES_LEN - 1) [CHR 0x09, CHR '' '', CHR 0x0A]) = [CHR 0x09, CHR '' '']"
    by (simp add: strip_nl_def MAX_CAPACITIES_LEN_def)
  have s1: "strip_nl (take (MAX_CAPACITIES_LEN - 1) [CHR 0x0A]) = []"
    by (simp add: strip_nl_def MAX_CAPACITIES_LEN_def)
  have sp: "isspace (CHR 0x09) \<and> isspace CHR '' '' \<and> isspace (CHR 0x0A)"
    by (simp add: isspace_def)
  from blank_input [OF h, of env8 None st_loaded] blank_input [OF h1, of env8 None st_loaded] s s1 sp
  show ?thesis by simp
qed

text \<open>A single blank is accepted, stored, and read back as a blank and a newline.\<close>

theorem blank_input_counterexample:
  "isspace CHR '' '' \<and>
   fst (capacities_set env8 fresh (Some '' '') st_loaded) = 0 \<and>
   capacities_buf (snd (capacities_set env8 fresh (Some '' '') st_loaded)) \<noteq> [] \<and>
   capacities_get (snd (capacities_set env8 fresh (Some '' '') st_loaded)) \<noteq> [CHR 0x0A]"
  by (simp add: run_defs)

subsection \<open>Error codes\<close>

lemma kstrtoull_error: "kstrtoull s = Inl err \<Longrightarrow> err = - EINVAL \<or> err = - ERANGE"
  by (auto simp: kstrtoull_def Let_def split: prod.splits if_splits)

lemma kstrtouint_error: "kstrtouint s = Inl err \<Longrightarrow> err = - EINVAL \<or> err = - ERANGE"
  by (auto simp: kstrtouint_def split: sum.splits if_splits dest: kstrtoull_error)

lemma spec_fields_error: "spec_fields spec = Inl err \<Longrightarrow> err = - EINVAL \<or> err = - ERANGE"
  by (auto simp: spec_fields_def kstrtoul_def Let_def split: sum.splits if_splits prod.splits
           dest: kstrtoull_error kstrtouint_error)





subsection \<open>Failures in the middle of a write\<close>

lemma apply_range_fails_first:
  "s \<le> t \<Longrightarrow> \<not> (valid_cpu e s \<and> cap \<le> SCHED_CAPACITY_SCALE) \<Longrightarrow>
   apply_range e cap s t st = (- EINVAL, st)"
  by (auto simp: apply_range.simps [of e cap s] set_cpu_capacity_cases errno_nonzero)

text \<open>
  C5 (amended). Applying one assignment checks and writes one CPU at a time, in
  ascending order. When it fails, it returns \<open>-EINVAL\<close> at the first CPU \<open>k\<close> of the range
  that is not valid (or at the first CPU, when the capacity exceeds
  \<open>SCHED_CAPACITY_SCALE\<close>); the CPUs of the range below \<open>k\<close> have been written, and nothing
  else has changed. Nothing at all is written when the capacity is too large or the
  first CPU of the range is not valid.
\<close>

theorem apply_range_failure:
  "apply_range e cap s t st = (ret, st') \<Longrightarrow> ret \<noteq> 0 \<Longrightarrow>
   ret = - EINVAL \<and> same_rest st st' \<and>
   (\<exists>k. s \<le> k \<and> k \<le> t \<and> \<not> (valid_cpu e k \<and> cap \<le> SCHED_CAPACITY_SCALE) \<and>
        (\<forall>i. s \<le> i \<and> i < k \<longrightarrow> valid_cpu e i) \<and>
        (\<forall>i. cpu_scale st' i = (if s \<le> i \<and> i < k then cap else cpu_scale st i))) \<and>
   (cap > SCHED_CAPACITY_SCALE \<or> \<not> valid_cpu e s \<longrightarrow> st' = st)"
proof -
  assume a: "apply_range e cap s t st = (ret, st')" and nz: "ret \<noteq> 0"
  from apply_range_char [OF a] nz obtain k where
    k: "s \<le> k" "ret = - EINVAL" "k \<le> t"
       "\<not> (valid_cpu e k \<and> cap \<le> SCHED_CAPACITY_SCALE)"
       "\<forall>i. s \<le> i \<and> i < k \<longrightarrow> valid_cpu e i \<and> cap \<le> SCHED_CAPACITY_SCALE"
       "cpu_scale st' = (\<lambda>i. if s \<le> i \<and> i < k then cap else cpu_scale st i)"
       "same_rest st st'"
    by blast
  have le: "s \<le> t" using k(1,3) by simp
  have "cap > SCHED_CAPACITY_SCALE \<or> \<not> valid_cpu e s \<longrightarrow> st' = st"
    using a apply_range_fails_first [OF le, of e cap st] by auto
  moreover have "\<exists>k. s \<le> k \<and> k \<le> t \<and> \<not> (valid_cpu e k \<and> cap \<le> SCHED_CAPACITY_SCALE) \<and>
        (\<forall>i. s \<le> i \<and> i < k \<longrightarrow> valid_cpu e i) \<and>
        (\<forall>i. cpu_scale st' i = (if s \<le> i \<and> i < k then cap else cpu_scale st i))"
    using k(1,3,4,5) by (intro exI [of _ k]) (simp add: k(6))
  ultimately show ?thesis using k(2,7) by blast
qed

theorem apply_range_failure_witness:
  "apply_range env8 100 0 9 st_loaded =
     (- EINVAL, snd (apply_range env8 100 0 9 st_loaded)) \<and> - EINVAL \<noteq> (0 :: int) \<and>
   (\<exists>k. \<not> valid_cpu env8 k \<and>
        (\<forall>i. cpu_scale (snd (apply_range env8 100 0 9 st_loaded)) i =
               (if 0 \<le> i \<and> i < k then 100 else cpu_scale st_loaded i))) \<and>
   apply_range env8 2000 0 3 st_loaded = (- EINVAL, st_loaded)"
proof -
  let ?r = "apply_range env8 100 0 9 st_loaded"
  have f: "fst ?r = - EINVAL" by (simp add: run_defs)
  then have e: "?r = (- EINVAL, snd ?r)" by (simp add: prod_eq_iff)
  have nz: "- EINVAL \<noteq> (0 :: int)" by (simp add: EINVAL_def)
  have c: "100 \<le> SCHED_CAPACITY_SCALE" by (simp add: SCHED_CAPACITY_SCALE_def)
  from apply_range_failure [OF e nz] c
  have 1: "\<exists>k. \<not> valid_cpu env8 k \<and>
        (\<forall>i. cpu_scale (snd ?r) i = (if 0 \<le> i \<and> i < k then 100 else cpu_scale st_loaded i))"
    by blast
  have f2: "fst (apply_range env8 2000 0 3 st_loaded) = - EINVAL" by (simp add: run_defs)
  then have e2: "apply_range env8 2000 0 3 st_loaded =
      (- EINVAL, snd (apply_range env8 2000 0 3 st_loaded))"
    by (simp add: prod_eq_iff)
  have b: "2000 > SCHED_CAPACITY_SCALE" by (simp add: SCHED_CAPACITY_SCALE_def)
  from apply_range_failure [OF e2 nz] b
  have "snd (apply_range env8 2000 0 3 st_loaded) = st_loaded" by blast
  with e2 have 2: "apply_range env8 2000 0 3 st_loaded = (- EINVAL, st_loaded)" by simp
  from e nz 1 2 show ?thesis by blast
qed

text \<open>
  The spec \<open>0-9:100\<close> on a machine with eight CPUs: the first CPU is valid, the last is
  out of range, the call fails, and CPUs 0 to 7 have been written.
\<close>

theorem apply_range_counterexample:
  "valid_cpu env8 0 \<and> \<not> 9 < nr_cpu_ids env8 \<and>
   spec_fields ''0-9:100'' = Inr (0, 9, 100) \<and>
   fst (parse_capacity_spec env8 ''0-9:100'' st_loaded) = - EINVAL \<and>
   cpu_scale st_loaded 0 = 1024 \<and>
   cpu_scale (snd (parse_capacity_spec env8 ''0-9:100'' st_loaded)) 0 = 100 \<and>
   cpu_scale (snd (parse_capacity_spec env8 ''0-9:100'' st_loaded)) 7 = 100"
  by (simp add: run_defs valid_cpu_def)

subsection \<open>A malformed spec in a batch\<close>

lemma apply_specs_append:
  "apply_specs e pre st = (0, st') \<Longrightarrow> apply_specs e (pre @ rest) st = apply_specs e rest st'"
proof (induction pre arbitrary: st)
  case Nil
  then show ?case by simp
next
  case (Cons spec pre)
  obtain r1 st1 where p: "parse_capacity_spec e spec st = (r1, st1)"
    by (cases "parse_capacity_spec e spec st")
  with Cons.prems have r: "r1 = 0" and q: "apply_specs e pre st1 = (0, st')"
    by (auto split: if_splits)
  from Cons.IH [OF q] p r show ?case by simp
qed

lemma specs_of_Nil: "specs_of [] = []"
  by (simp add: specs_of.simps)

text \<open>
  C1 (amended). Let the input contain a spec that does not parse, and let the snapshot
  step and all specs before it succeed. Then the write returns the error of the parser
  (\<open>-EINVAL\<close> or \<open>-ERANGE\<close>), the stored string is unchanged, and the state is the one
  reached after applying the specs before the malformed one: their assignments stay
  applied, the malformed spec and the specs after it write nothing. The capacities are
  unchanged when the malformed spec is the first of the input.
\<close>

theorem malformed_spec_in_batch:
  assumes "specs_of (skip_space v) = pre @ bad # post"
    and "spec_fields bad = Inl err"
    and "save_original_capacities e al st = (0, st1)"
    and "apply_specs e pre st1 = (0, st2)"
  shows "capacities_set e al (Some v) st = (err, st2) \<and>
         (err = - EINVAL \<or> err = - ERANGE) \<and> err \<noteq> 0 \<and>
         capacities_buf st2 = capacities_buf st \<and>
         (pre = [] \<longrightarrow> cpu_scale st2 = cpu_scale st)"
proof -
  have ne: "skip_space v \<noteq> []"
    using assms(1) specs_of_Nil by auto
  have nz: "err \<noteq> 0"
    using spec_fields_error [OF assms(2)] by (auto simp: EINVAL_def ERANGE_def)
  have "apply_specs e (bad # post) st2 = (err, st2)"
    using nz by (simp add: parse_capacity_spec_error [OF assms(2)])
  with apply_specs_append [OF assms(4), of "bad # post"]
  have "apply_specs e (specs_of (skip_space v)) st1 = (err, st2)"
    by (simp add: assms(1))
  then have p: "parse_capacities e al v st = (err, st2)"
    using ne assms(3) by (simp add: parse_capacities_specs)
  then have c: "capacities_set e al (Some v) st = (err, st2)"
    using nz by (simp add: capacities_set_def)
  have b: "capacities_buf st2 = capacities_buf st"
    using p by (rule parse_capacities_buf)
  have "pre = [] \<longrightarrow> cpu_scale st2 = cpu_scale st"
    using assms(3,4) by (auto dest: save_frame)
  with c nz b spec_fields_error [OF assms(2)] show ?thesis by simp
qed


theorem malformed_spec_in_batch_witness:
  "specs_of (skip_space ''0:100,xyz'') = [''0:100''] @ ''xyz'' # [] \<and>
   spec_fields ''xyz'' = Inl (- EINVAL) \<and>
   fst (capacities_set env8 fresh (Some ''0:100,xyz'') st_loaded) = - EINVAL \<and>
   cpu_scale (snd (capacities_set env8 fresh (Some ''0:100,xyz'') st_loaded)) 0 = 100 \<and>
   capacities_buf (snd (capacities_set env8 fresh (Some ''0:100,xyz'') st_loaded)) = [] \<and>
   specs_of (skip_space ''5-2:7,0:100'') = [] @ ''5-2:7'' # [''0:100''] \<and>
   spec_fields ''5-2:7'' = Inl (- EINVAL) \<and>
   cpu_scale (snd (capacities_set env8 fresh (Some ''5-2:7,0:100'') st_loaded)) =
     cpu_scale st_loaded"
proof -
  let ?sv = "save_original_capacities env8 fresh st_loaded"
  let ?ap = "apply_specs env8 [''0:100''] (snd ?sv)"
  have s1: "specs_of (skip_space ''0:100,xyz'') = [''0:100''] @ ''xyz'' # []"
    by (simp add: specs_of.simps run_defs)
  have b1: "spec_fields ''xyz'' = Inl (- EINVAL)" by (simp add: run_defs)
  have "fst ?sv = 0" by (simp add: run_defs)
  then have sv: "?sv = (0, snd ?sv)" by (simp add: prod_eq_iff)
  have "fst ?ap = 0" by (simp add: run_defs)
  then have ap: "?ap = (0, snd ?ap)" by (simp add: prod_eq_iff)
  have v: "cpu_scale (snd ?ap) 0 = 100" by (simp add: run_defs)
  have b: "capacities_buf st_loaded = []" by (simp add: st_loaded_def)
  from malformed_spec_in_batch [OF s1 b1 sv ap] v b
  have 1: "fst (capacities_set env8 fresh (Some ''0:100,xyz'') st_loaded) = - EINVAL \<and>
     cpu_scale (snd (capacities_set env8 fresh (Some ''0:100,xyz'') st_loaded)) 0 = 100 \<and>
     capacities_buf (snd (capacities_set env8 fresh (Some ''0:100,xyz'') st_loaded)) = []"
    by simp
  have s2: "specs_of (skip_space ''5-2:7,0:100'') = [] @ ''5-2:7'' # [''0:100'']"
    by (simp add: specs_of.simps run_defs)
  have b2: "spec_fields ''5-2:7'' = Inl (- EINVAL)" by (simp add: run_defs)
  have a0: "apply_specs env8 [] (snd ?sv) = (0, snd ?sv)" by simp
  from malformed_spec_in_batch [OF s2 b2 sv a0]
  have 2: "cpu_scale (snd (capacities_set env8 fresh (Some ''5-2:7,0:100'') st_loaded)) =
     cpu_scale st_loaded"
    by simp
  from s1 b1 1 s2 b2 2 show ?thesis by blast
qed

text \<open>
  The two inputs \<open>0:100,xyz\<close> and \<open>0:100,5-2:7\<close>: the write fails and CPU 0 has
  capacity 100 instead of 1024.
\<close>

theorem malformed_spec_counterexample:
  "fst (capacities_set env8 fresh (Some ''0:100,xyz'') st_loaded) = - EINVAL \<and>
   cpu_scale (snd (capacities_set env8 fresh (Some ''0:100,xyz'') st_loaded)) 0 = 100 \<and>
   fst (capacities_set env8 fresh (Some ''0:100,5-2:7'') st_loaded) = - EINVAL \<and>
   cpu_scale (snd (capacities_set env8 fresh (Some ''0:100,5-2:7'') st_loaded)) 0 = 100 \<and>
   cpu_scale st_loaded 0 = 1024"
  by (simp add: run_defs)

subsection \<open>CPUs that are not possible\<close>

lemma apply_range_covers_invalid:
  assumes "apply_range e c a b st = (ret, st')" and "a \<le> i" and "i \<le> b" and "\<not> valid_cpu e i"
  shows "ret = - EINVAL"
proof (rule ccontr)
  assume n: "ret \<noteq> - EINVAL"
  from apply_range_char [OF assms(1)] n obtain k where
    "ret = 0" "k = max a (b + 1)"
    "\<forall>i. a \<le> i \<and> i < k \<longrightarrow> valid_cpu e i \<and> c \<le> SCHED_CAPACITY_SCALE"
    by blast
  with assms(2,3,4) show False by (auto simp: max_def split: if_splits)
qed

lemma apply_specs_covers_invalid:
  assumes "apply_specs e specs st = (ret, st')"
    and "spec \<in> set specs" and "spec_fields spec = Inr (a, b, c)"
    and "a \<le> i" and "i \<le> b" and "\<not> valid_cpu e i"
  shows "ret \<noteq> 0"
  using assms(1,2)
proof (induction specs arbitrary: st)
  case Nil
  then show ?case by simp
next
  case (Cons x specs)
  obtain r1 st1 where p: "parse_capacity_spec e x st = (r1, st1)"
    by (cases "parse_capacity_spec e x st")
  show ?case
  proof (cases "r1 = 0")
    case False
    with Cons.prems(1) p show ?thesis by simp
  next
    case True
    with Cons.prems(1) p have rest: "apply_specs e specs st1 = (ret, st')" by simp
    have "x \<noteq> spec"
    proof
      assume "x = spec"
      with p assms(3) have "apply_range e c a b st = (r1, st1)"
        by (simp add: parse_capacity_spec_def)
      from apply_range_covers_invalid [OF this assms(4,5,6)] True
      show False by (simp add: EINVAL_def)
    qed
    with Cons.prems(2) have "spec \<in> set specs" by simp
    with rest show ?thesis by (rule Cons.IH)
  qed
qed

lemma apply_specs_all_parsed:
  assumes "\<forall>s \<in> set specs. \<exists>f. spec_fields s = Inr f"
    and "apply_specs e specs st = (ret, st')"
  shows "ret = 0 \<or> ret = - EINVAL"
  using assms
proof (induction specs arbitrary: st)
  case Nil
  then show ?case by simp
next
  case (Cons x specs)
  obtain r1 st1 where p: "parse_capacity_spec e x st = (r1, st1)"
    by (cases "parse_capacity_spec e x st")
  from Cons.prems(1) obtain a b c where f: "spec_fields x = Inr (a, b, c)"
    by (metis list.set_intros(1) prod_cases3)
  with p have "apply_range e c a b st = (r1, st1)" by (simp add: parse_capacity_spec_def)
  from apply_range_char [OF this] have r1: "r1 = 0 \<or> r1 = - EINVAL" by blast
  show ?case
  proof (cases "r1 = 0")
    case True
    with Cons.prems p have "apply_specs e specs st1 = (ret, st')"
      and "\<forall>s \<in> set specs. \<exists>f. spec_fields s = Inr f" by simp_all
    then show ?thesis using Cons.IH by blast
  next
    case False
    with Cons.prems(2) p r1 show ?thesis by simp
  qed
qed

text \<open>
  C10. Let CPU \<open>i\<close> be not possible (whether or not its number is below \<open>nr_cpu_ids\<close>).
  Then \<open>set_cpu_capacity\<close> rejects it with \<open>-EINVAL\<close> and writes nothing; every write
  whose input has a spec with a range that covers \<open>i\<close> fails, and it fails with
  \<open>-EINVAL\<close> when the snapshot step succeeds and all specs of the input parse; taking the
  snapshot leaves the slot of \<open>i\<close> in the fresh array as it came from the allocator; and
  the restore leaves the capacity of \<open>i\<close> as it is.
\<close>

theorem impossible_cpu_rejected:
  assumes "\<not> cpu_possible e i"
  shows "set_cpu_capacity e i cap st = (- EINVAL, st) \<and>
         (spec \<in> set (specs_of (skip_space v)) \<and> spec_fields spec = Inr (a, b, c) \<and>
          a \<le> i \<and> i \<le> b \<longrightarrow>
            fst (capacities_set e al (Some v) st) \<noteq> 0 \<and>
            ((al \<noteq> None \<or> original_saved st) \<and>
             (\<forall>s \<in> set (specs_of (skip_space v)). \<exists>f. spec_fields s = Inr f) \<longrightarrow>
               fst (capacities_set e al (Some v) st) = - EINVAL)) \<and>
         (\<not> original_saved st \<longrightarrow>
            (\<exists>arr. original_capacities (snd (save_original_capacities e (Some g) st)) = Some arr \<and>
                  arr i = g i)) \<and>
         cpu_scale (restore_original_capacities e st) i = cpu_scale st i"
proof -
  have nv: "\<not> valid_cpu e i" using assms by (simp add: valid_cpu_def)
  have 1: "set_cpu_capacity e i cap st = (- EINVAL, st)"
    using nv by (simp add: set_cpu_capacity_cases)
  have 2: "fst (capacities_set e al (Some v) st) \<noteq> 0 \<and>
            ((al \<noteq> None \<or> original_saved st) \<and>
             (\<forall>s \<in> set (specs_of (skip_space v)). \<exists>f. spec_fields s = Inr f) \<longrightarrow>
               fst (capacities_set e al (Some v) st) = - EINVAL)"
    if h: "spec \<in> set (specs_of (skip_space v))" "spec_fields spec = Inr (a, b, c)"
          "a \<le> i" "i \<le> b"
  proof -
    have ne: "skip_space v \<noteq> []" using h(1) specs_of_Nil by auto
    obtain r1 st1 where sv: "save_original_capacities e al st = (r1, st1)"
      by (cases "save_original_capacities e al st")
    show ?thesis
    proof (cases "r1 = 0")
      case False
      with ne sv have "fst (parse_capacities e al v st) = r1"
        by (simp add: parse_capacities_specs)
      with False save_result [OF sv] show ?thesis
        by (auto simp: capacities_set_fst)
    next
      case True
      obtain ret st' where ap: "apply_specs e (specs_of (skip_space v)) st1 = (ret, st')"
        by (cases "apply_specs e (specs_of (skip_space v)) st1")
      with True ne sv have f: "fst (capacities_set e al (Some v) st) = ret"
        by (simp add: capacities_set_fst parse_capacities_specs)
      have nz: "ret \<noteq> 0"
        using ap h nv by (rule apply_specs_covers_invalid)
      with f apply_specs_all_parsed [OF _ ap] show ?thesis by auto
    qed
  qed
  have 3: "\<not> original_saved st \<longrightarrow>
            (\<exists>arr. original_capacities (snd (save_original_capacities e (Some g) st)) = Some arr \<and>
                  arr i = g i)"
    using nv by (simp add: save_fresh)
  have 4: "cpu_scale (restore_original_capacities e st) i = cpu_scale st i"
    using nv by (auto simp: restore_original_capacities_def fold_copy set_possible_cpus
                     split: option.splits)
  from 1 2 3 4 show ?thesis by blast
qed

theorem impossible_cpu_rejected_witness:
  "\<not> cpu_possible env_sparse 1 \<and> 1 < nr_cpu_ids env_sparse \<and>
   ''0-2:100'' \<in> set (specs_of (skip_space ''4:7,0-2:100'')) \<and>
   spec_fields ''0-2:100'' = Inr (0, 2, 100) \<and>
   fst (capacities_set env_sparse fresh (Some ''4:7,0-2:100'') st_loaded) = - EINVAL \<and>
   (\<exists>arr. original_capacities (snd (save_original_capacities env_sparse fresh st_loaded)) = Some arr \<and>
          arr 1 = 0)"
proof -
  have p: "\<not> cpu_possible env_sparse 1" by (simp add: env_sparse_def)
  have n: "1 < nr_cpu_ids env_sparse" by (simp add: env_sparse_def)
  have sp: "specs_of (skip_space ''4:7,0-2:100'') = [''4:7'', ''0-2:100'']"
    by (simp add: specs_of.simps run_defs)
  have f1: "spec_fields ''4:7'' = Inr (4, 4, 7)" by (simp add: run_defs)
  have f2: "spec_fields ''0-2:100'' = Inr (0, 2, 100)" by (simp add: run_defs)
  have m: "''0-2:100'' \<in> set (specs_of (skip_space ''4:7,0-2:100''))" by (simp add: sp)
  have all: "\<forall>s \<in> set (specs_of (skip_space ''4:7,0-2:100'')). \<exists>f. spec_fields s = Inr f"
    by (simp add: sp f1 f2)
  have us: "\<not> original_saved st_loaded" by (simp add: st_loaded_def)
  have al: "fresh \<noteq> None" by (simp add: fresh_def)
  from impossible_cpu_rejected [OF p, where spec = "''0-2:100''" and v = "''4:7,0-2:100''"
      and a = 0 and b = 2 and c = 100 and al = fresh and st = st_loaded and g = "\<lambda>cpu. 0"]
    m f2 all us al
  have "fst (capacities_set env_sparse fresh (Some ''4:7,0-2:100'') st_loaded) = - EINVAL"
    and "\<exists>arr. original_capacities (snd (save_original_capacities env_sparse (Some (\<lambda>cpu. 0)) st_loaded)) = Some arr \<and>
          arr 1 = 0"
    by simp_all
  with p n m f2 show ?thesis by (simp add: fresh_def)
qed

subsection \<open>Decimal numerals\<close>

lemma of_char_digit_char: "d < 10 \<Longrightarrow> (of_char (digit_char d) :: nat) = 48 + d"
  by (simp add: digit_char_def)

lemma digit_char_eq: "d < 10 \<Longrightarrow> digit_char d = c \<longleftrightarrow> (of_char c :: nat) = 48 + d"
proof -
  assume "d < 10"
  then have "(of_char (digit_char d) :: nat) = 48 + d" by (rule of_char_digit_char)
  then have "(of_char c :: nat) = 48 + d \<longleftrightarrow> (of_char (digit_char d) :: nat) = of_char c"
    by auto
  then show ?thesis by (simp only: of_char_eq_iff)
qed

lemma digit_char_nth: "d < 10 \<Longrightarrow> digit_char d = ''0123456789'' ! d"
proof -
  assume d: "d < 10"
  have "map digit_char [0, 1, 2, 3, 4, 5, 6, 7, 8, 9] = ''0123456789''"
    by (simp add: digit_char_eq)
  moreover have "map digit_char [0, 1, 2, 3, 4, 5, 6, 7, 8, 9] ! d = digit_char ([0, 1, 2, 3, 4, 5, 6, 7, 8, 9] ! d)"
    using d by (intro nth_map) simp
  moreover have "[0, 1, 2, 3, 4, 5, 6, 7, 8, 9] ! d = d"
    using d nth_upt [of 0 d 10] by (simp add: upt_rec [of _ 10] upt_rec [of _ "Suc _"] numeral_eq_Suc)
  ultimately show ?thesis by simp
qed

lemma all_digits_dec: "all_digits (dec n)"
proof (induction n rule: dec.induct)
  case (1 n)
  show ?case
  proof (cases "n < 10")
    case True
    then show ?thesis by (subst dec.simps) (simp add: all_digits_def of_char_digit_char)
  next
    case False
    have "n mod 10 < 10" by simp
    with False "1.IH" show ?thesis
      by (subst dec.simps) (simp add: all_digits_def of_char_digit_char)
  qed
qed

lemma dec_not_Nil: "dec n \<noteq> []"
  by (subst dec.simps) simp

lemma dval_snoc: "dval res (xs @ [c]) = dval res xs * 10 + (of_char c - 48)"
  by (simp add: dval_def)

lemma dval_dec: "dval 0 (dec n) = n"
proof (induction n rule: dec.induct)
  case (1 n)
  show ?case
  proof (cases "n < 10")
    case True
    then show ?thesis by (subst dec.simps) (simp add: dval_def of_char_digit_char)
  next
    case False
    have "n mod 10 < 10" by simp
    with False "1.IH" show ?thesis
      by (subst dec.simps) (simp add: dval_snoc of_char_digit_char)
  qed
qed

lemma hd_dec: "of_char (hd (dec n)) = (48::nat) \<longleftrightarrow> n = 0"
proof (induction n rule: dec.induct)
  case (1 n)
  show ?case
  proof (cases "n < 10")
    case True
    then show ?thesis by (subst dec.simps) (simp add: of_char_digit_char)
  next
    case False
    then have "n div 10 \<noteq> 0" by simp
    with False "1.IH" dec_not_Nil [of "n div 10"] show ?thesis
      by (subst dec.simps) simp
  qed
qed

lemma length_dec: "0 < k \<Longrightarrow> n < 10 ^ k \<Longrightarrow> length (dec n) \<le> k"
proof (induction n arbitrary: k rule: dec.induct)
  case (1 n)
  show ?case
  proof (cases "n < 10")
    case True
    with "1.prems" show ?thesis by (subst dec.simps) simp
  next
    case False
    with "1.prems" have k: "1 < k" by (cases "k = 1") auto
    then obtain j where j: "k = Suc j" "0 < j" by (cases k) auto
    with "1.prems" have "n div 10 < 10 ^ j"
      by (simp add: less_mult_imp_div_less mult.commute)
    from "1.IH" [OF False j(2) this] False j show ?thesis
      by (subst dec.simps) simp
  qed
qed

lemma dval_mono: "res \<le> dval res xs"
proof (induction xs arbitrary: res)
  case Nil
  then show ?case by (simp add: dval_def)
next
  case (Cons c cs)
  have "res \<le> res * 10 + (of_char c - 48)" by simp
  also have "\<dots> \<le> dval (res * 10 + (of_char c - 48)) cs" by (rule Cons.IH)
  finally show ?case by (simp add: dval_def)
qed

lemma digit_val_digit:
  "48 \<le> (of_char c :: nat) \<Longrightarrow> (of_char c :: nat) \<le> 57 \<Longrightarrow> digit_val c = Some (of_char c - 48)"
  by (simp add: digit_val_def)

lemma parse_integer_digits:
  "all_digits xs \<Longrightarrow> dval res xs < 2 ^ 60 \<Longrightarrow>
   parse_integer 10 xs res = (dval res xs, length xs, False)"
proof (induction xs arbitrary: res)
  case Nil
  then show ?case by (simp add: dval_def)
next
  case (Cons c cs)
  let ?d = "of_char c - (48::nat)"
  from Cons.prems(1) have c: "48 \<le> (of_char c :: nat)" "(of_char c :: nat) \<le> 57"
    and cs: "all_digits cs"
    by (simp_all add: all_digits_def)
  have dv: "digit_val c = Some ?d" using c by (rule digit_val_digit)
  have d10: "?d < 10" using c by simp
  have eq: "dval res (c # cs) = dval (res * 10 + ?d) cs" by (simp add: dval_def)
  have "res * 10 + ?d \<le> dval (res * 10 + ?d) cs" by (rule dval_mono)
  with Cons.prems(2) eq have small: "res * 10 + ?d < 2 ^ 60" by simp
  then have m: "(res * 10 + ?d) mod 2 ^ 64 = res * 10 + ?d" by simp
  from small have r: "\<not> res \<ge> 2 ^ 60" by simp
  from Cons.IH [OF cs, of "res * 10 + ?d"] Cons.prems(2) eq
  have "parse_integer 10 cs (res * 10 + ?d) = (dval res (c # cs), length cs, False)"
    by simp
  with dv d10 m r show ?case by simp
qed

lemma fixup_radix_decimal:
  "s \<noteq> [] \<Longrightarrow> hd s \<noteq> CHR ''0'' \<Longrightarrow> fixup_radix s = (10, s)"
  by (auto simp: fixup_radix_def split: list.splits)

lemma kstrtoull_dec:
  assumes "n < 2 ^ 60"
  shows "kstrtoull (dec n) = Inr n"
proof (cases "n = 0")
  case True
  have "dec 0 = ''0''" by (simp add: dec.simps digit_char_nth)
  with True show ?thesis
    by (simp add: kstrtoull_def fixup_radix_def digit_val_def)
next
  case False
  have ne: "dec n \<noteq> []" by (rule dec_not_Nil)
  have ad: "all_digits (dec n)" by (rule all_digits_dec)
  with ne have "48 \<le> (of_char (hd (dec n)) :: nat)"
    by (simp add: all_digits_def)
  then have plus: "hd (dec n) \<noteq> CHR ''+''" by auto
  from False hd_dec [of n] have zero: "hd (dec n) \<noteq> CHR ''0''" by auto
  have p: "parse_integer 10 (dec n) 0 = (n, length (dec n), False)"
    using parse_integer_digits [OF ad, of 0] assms by (simp add: dval_dec)
  show ?thesis
    using ne plus by (simp add: kstrtoull_def fixup_radix_decimal [OF ne zero] p)
qed

lemma kstrtouint_dec: "n < 2 ^ 32 \<Longrightarrow> kstrtouint (dec n) = Inr n"
proof -
  assume a: "n < 2 ^ 32"
  have "(2::nat) ^ 32 < 2 ^ 60" by simp
  with a have "n < 2 ^ 60" by (rule less_trans)
  with a show ?thesis by (simp add: kstrtouint_def kstrtoull_dec)
qed


subsection \<open>A range spec\<close>

lemma all_digits_no_sep:
  assumes "all_digits xs"
  shows "CHR '':'' \<notin> set xs" and "CHR ''-'' \<notin> set xs" and "CHR '','' \<notin> set xs"
  using assms by (auto simp: all_digits_def)

lemma all_digits_no_space: "all_digits xs \<Longrightarrow> c \<in> set xs \<Longrightarrow> \<not> isspace c"
  by (auto simp: all_digits_def isspace_def)

lemma before_after_split:
  "sep \<notin> set xs \<Longrightarrow> before sep (xs @ sep # ys) = xs \<and> after sep (xs @ sep # ys) = ys"
proof -
  assume "sep \<notin> set xs"
  then have n: "\<And>x. x \<in> set xs \<Longrightarrow> x \<noteq> sep" by auto
  have "takeWhile (\<lambda>c. c \<noteq> sep) (xs @ sep # ys) = xs @ takeWhile (\<lambda>c. c \<noteq> sep) (sep # ys)"
    using n by (rule takeWhile_append2)
  moreover have "dropWhile (\<lambda>c. c \<noteq> sep) (xs @ sep # ys) = dropWhile (\<lambda>c. c \<noteq> sep) (sep # ys)"
    using n by (rule dropWhile_append2)
  ultimately show ?thesis by (simp add: before_def after_def)
qed

lemma before_none: "sep \<notin> set xs \<Longrightarrow> before sep xs = xs"
  by (auto simp: before_def)

lemma pow_bounds: "(2::nat) ^ 32 < 10 ^ 10" "(1024::nat) < 10 ^ 4"
  by simp_all

lemma spec_fields_range_spec:
  assumes "s \<le> t" and "t < 2 ^ 32" and "v \<le> SCHED_CAPACITY_SCALE"
  shows "spec_fields (range_spec s t v) = Inr (s, t, v)"
proof -
  have s32: "s < 2 ^ 32" using assms(1,2) by simp
  have v60: "v < 2 ^ 60" using assms(3) by (simp add: SCHED_CAPACITY_SCALE_def)
  have ls: "length (dec s) \<le> 10" using s32 pow_bounds(1) by (intro length_dec) simp_all
  have lt: "length (dec t) \<le> 10" using assms(2) pow_bounds(1) by (intro length_dec) simp_all
  have lv: "length (dec v) \<le> 4"
    using assms(3) by (intro length_dec) (simp_all add: SCHED_CAPACITY_SCALE_def)
  have len: "\<not> length (range_spec s t v) \<ge> 64"
    using ls lt lv by (simp add: range_spec_def)
  have colon: "CHR '':'' \<in> set (range_spec s t v)" by (simp add: range_spec_def)
  have nc: "CHR '':'' \<notin> set (dec s @ ''-'' @ dec t)"
    using all_digits_no_sep(1) [OF all_digits_dec] by simp
  have "range_spec s t v = (dec s @ ''-'' @ dec t) @ CHR '':'' # dec v"
    by (simp add: range_spec_def)
  with before_after_split [OF nc, of "dec v"]
  have b: "before CHR '':'' (range_spec s t v) = dec s @ ''-'' @ dec t"
    and a: "after CHR '':'' (range_spec s t v) = dec v"
    by simp_all
  have dash: "CHR ''-'' \<in> set (dec s @ ''-'' @ dec t)" by simp
  have nd: "CHR ''-'' \<notin> set (dec s)" by (rule all_digits_no_sep(2) [OF all_digits_dec])
  from before_after_split [OF nd, of "dec t"]
  have b2: "before CHR ''-'' (dec s @ ''-'' @ dec t) = dec s"
    and a2: "after CHR ''-'' (dec s @ ''-'' @ dec t) = dec t"
    by simp_all
  show ?thesis
    unfolding spec_fields_def
    using len colon dash assms(1)
    by (simp only: b a b2 a2 Let_def kstrtoul_def kstrtoull_dec [OF v60]
          kstrtouint_dec [OF s32] kstrtouint_dec [OF assms(2)]) simp
qed

lemma range_spec_shape:
  "range_spec s t v \<noteq> []"
  "\<not> isspace (hd (range_spec s t v))"
  "\<not> isspace (last (range_spec s t v))"
  "CHR '','' \<notin> set (range_spec s t v)"
proof -
  show "range_spec s t v \<noteq> []" by (simp add: range_spec_def)
  have "hd (range_spec s t v) = hd (dec s)"
    using dec_not_Nil [of s] by (simp add: range_spec_def)
  then show "\<not> isspace (hd (range_spec s t v))"
    using all_digits_no_space [OF all_digits_dec, of "hd (dec s)" s] dec_not_Nil [of s] by simp
  have "last (range_spec s t v) = last (dec v)"
    using dec_not_Nil [of v] by (simp add: range_spec_def)
  then show "\<not> isspace (last (range_spec s t v))"
    using all_digits_no_space [OF all_digits_dec, of "last (dec v)" v] dec_not_Nil [of v] by simp
  show "CHR '','' \<notin> set (range_spec s t v)"
    using all_digits_no_sep(3) [OF all_digits_dec] by (simp add: range_spec_def)
qed

lemma single_spec_input:
  assumes "p \<noteq> []" and "\<not> isspace (hd p)" and "\<not> isspace (last p)" and "CHR '','' \<notin> set p"
  shows "skip_space p = p" and "specs_of p = [p]"
proof -
  from assms(1) obtain c cs where p: "p = c # cs" by (cases p) auto
  with assms(2) show "skip_space p = p" by (simp add: skip_space_def)
  have b: "before CHR '','' p = p" using assms(4) by (rule before_none)
  from assms(1) obtain ys y where r: "rev p = y # ys" by (cases "rev p") auto
  with assms(1) have "last p = y" by (metis list.sel(1) hd_rev)
  with assms(3) r have "dropWhile isspace (rev p) = rev p" by simp
  then have so: "spec_of p = p" by (simp add: spec_of_def b trim_right_def)
  then have nx: "next_of p = []" by (simp add: next_of_def skip_space_def)
  show "specs_of p = [p]"
    using assms(1) by (subst specs_of.simps) (simp add: so nx specs_of_Nil)
qed

lemma apply_range_succeeds:
  assumes "\<forall>i. s \<le> i \<and> i \<le> t \<longrightarrow> valid_cpu e i" and "cap \<le> SCHED_CAPACITY_SCALE"
  shows "fst (apply_range e cap s t st) = 0"
proof (rule ccontr)
  assume nz: "fst (apply_range e cap s t st) \<noteq> 0"
  have "apply_range e cap s t st = (fst (apply_range e cap s t st), snd (apply_range e cap s t st))"
    by simp
  from apply_range_char [OF this] nz obtain k where
    "s \<le> k" "k \<le> t" "\<not> (valid_cpu e k \<and> cap \<le> SCHED_CAPACITY_SCALE)"
    by blast
  with assms show False by blast
qed

text \<open>
  C4. Let \<open>s \<le> t\<close> be CPU numbers below \<open>nr_cpu_ids\<close> (which is an \<open>unsigned int\<close>) and
  let \<open>v\<close> be at most \<open>SCHED_CAPACITY_SCALE\<close>. When the write of the text
  \<open>s-t:v\<close>, the three numbers in decimal, succeeds, every CPU from \<open>s\<close> to \<open>t\<close> has
  capacity \<open>v\<close> afterwards and every other CPU has the capacity it had before. And the
  write does succeed when all CPUs from \<open>s\<close> to \<open>t\<close> are possible and the snapshot is
  held already or can be allocated.
\<close>

theorem range_assignment:
  assumes "s \<le> t" and "t < nr_cpu_ids e" and "nr_cpu_ids e \<le> 2 ^ 32"
    and "v \<le> SCHED_CAPACITY_SCALE"
  shows "(capacities_set e al (Some (range_spec s t v)) st = (0, st') \<longrightarrow>
           (\<forall>i. cpu_scale st' i = (if s \<le> i \<and> i \<le> t then v else cpu_scale st i))) \<and>
         ((al \<noteq> None \<or> original_saved st) \<and> (\<forall>i. s \<le> i \<and> i \<le> t \<longrightarrow> cpu_possible e i) \<longrightarrow>
           fst (capacities_set e al (Some (range_spec s t v)) st) = 0)"
proof (intro conjI impI)
  let ?p = "range_spec s t v"
  have t32: "t < 2 ^ 32" using assms(2,3) by simp
  have sf: "spec_fields ?p = Inr (s, t, v)"
    using assms(1) t32 assms(4) by (rule spec_fields_range_spec)
  have sk: "skip_space ?p = ?p" and sp: "specs_of ?p = [?p]"
    using range_spec_shape [of s t v] by (rule single_spec_input)+
  have ne: "skip_space ?p \<noteq> []" using sk range_spec_shape(1) [of s t v] by simp
  obtain r1 st1 where sv: "save_original_capacities e al st = (r1, st1)"
    by (cases "save_original_capacities e al st")
  obtain r2 st2 where ar: "apply_range e v s t st1 = (r2, st2)"
    by (cases "apply_range e v s t st1")
  have pc: "parse_capacities e al ?p st = (if r1 \<noteq> 0 then (r1, st1) else (r2, st2))"
    unfolding parse_capacities_specs [OF ne] sk sp
    using sv ar by (simp add: parse_capacity_spec_def sf)
  {
    assume ok: "capacities_set e al (Some ?p) st = (0, st')"
    from capacities_set_ok [OF ok] obtain s2 where
      p0: "parse_capacities e al ?p st = (0, s2)" and
      st': "st' = s2\<lparr>capacities_buf := strip_nl (take (MAX_CAPACITIES_LEN - 1) ?p)\<rparr>"
      by blast
    from p0 pc have "r1 = 0 \<and> r2 = 0 \<and> s2 = st2" by (auto split: if_splits)
    with ar have ar0: "apply_range e v s t st1 = (0, s2)" by simp
    from apply_range_char [OF ar0] assms(1)
    have "cpu_scale s2 = (\<lambda>i. if s \<le> i \<and> i < t + 1 then v else cpu_scale st1 i)"
      by (auto simp: max_def)
    moreover have "cpu_scale st1 = cpu_scale st" using sv by (simp add: save_frame)
    ultimately show "\<forall>i. cpu_scale st' i = (if s \<le> i \<and> i \<le> t then v else cpu_scale st i)"
      by (auto simp: st')
  }
  {
    assume h: "(al \<noteq> None \<or> original_saved st) \<and> (\<forall>i. s \<le> i \<and> i \<le> t \<longrightarrow> cpu_possible e i)"
    with save_result [OF sv] have r1: "r1 = 0" by auto
    from h assms(2) have "\<forall>i. s \<le> i \<and> i \<le> t \<longrightarrow> valid_cpu e i"
      by (auto simp: valid_cpu_def)
    from apply_range_succeeds [OF this assms(4), of st1] ar have "r2 = 0" by simp
    with r1 pc show "fst (capacities_set e al (Some ?p) st) = 0"
      by (simp add: capacities_set_fst)
  }
qed

theorem range_assignment_witness:
  "(2::nat) \<le> 5 \<and> 5 < nr_cpu_ids env8 \<and> nr_cpu_ids env8 \<le> 2 ^ 32 \<and>
   768 \<le> SCHED_CAPACITY_SCALE \<and> range_spec 2 5 768 = ''2-5:768'' \<and>
   fst (capacities_set env8 fresh (Some ''2-5:768'') st_loaded) = 0 \<and>
   map (cpu_scale (snd (capacities_set env8 fresh (Some ''2-5:768'') st_loaded)))
     [0, 1, 2, 3, 4, 5, 6, 7] = [1024, 1024, 768, 768, 768, 768, 1024, 1024]"
proof -
  let ?r = "capacities_set env8 fresh (Some ''2-5:768'') st_loaded"
  have h1: "(2::nat) \<le> 5" by simp
  have h2: "5 < nr_cpu_ids env8" by (simp add: env8_def)
  have h3: "nr_cpu_ids env8 \<le> 2 ^ 32" by (simp add: env8_def)
  have h4: "768 \<le> SCHED_CAPACITY_SCALE" by (simp add: SCHED_CAPACITY_SCALE_def)
  have rs: "range_spec 2 5 768 = ''2-5:768''"
    by (simp add: range_spec_def dec.simps digit_char_nth)
  have al: "fresh \<noteq> None" by (simp add: fresh_def)
  have ps: "\<forall>i. (2::nat) \<le> i \<and> i \<le> 5 \<longrightarrow> cpu_possible env8 i" by (simp add: env8_def)
  note th = range_assignment [OF h1 h2 h3 h4, of fresh st_loaded "snd ?r"]
  from th al ps have ok: "fst ?r = 0" by (simp add: rs)
  then have h5: "capacities_set env8 fresh (Some (range_spec 2 5 768)) st_loaded = (0, snd ?r)"
    by (simp add: rs prod_eq_iff)
  have init: "\<forall>i. cpu_scale st_loaded i = 1024" by (simp add: st_loaded_def)
  from th h5 init
  have "map (cpu_scale (snd ?r)) [0, 1, 2, 3, 4, 5, 6, 7] =
     [1024, 1024, 768, 768, 768, 768, 1024, 1024]"
    by simp
  with h1 h2 h3 h4 rs ok show ?thesis by blast
qed

subsection \<open>Return values\<close>















end
